theory Spec2Isabelle
  imports Main "HOL-Library.Word"
begin

section \<open>JavaScript strings\<close>

text \<open>
  A JavaScript string is a sequence of 16-bit code units; \<open>line.length\<close> and
  \<open>line[i]\<close> count and read code units. The model keeps that: a string is a list of
  16-bit words. \<open>js\<close> turns an ASCII literal into such a string.
\<close>

type_synonym jschar = "16 word"
type_synonym jsstring = "jschar list"

definition js :: "string \<Rightarrow> jsstring" where
  "js s = map of_char s"

abbreviation TAB :: jschar where "TAB \<equiv> 0x09"
abbreviation NL :: jschar where "NL \<equiv> 0x0A"
abbreviation CR :: jschar where "CR \<equiv> 0x0D"
abbreviation NUL :: jschar where "NUL \<equiv> 0x00"
abbreviation BSL :: jschar where "BSL \<equiv> 0x5C"
abbreviation SQ :: jschar where "SQ \<equiv> 0x27"
abbreviation DQ :: jschar where "DQ \<equiv> 0x22"

text \<open>\<open>\d\<close> of a JavaScript regular expression: the ten ASCII digits only.\<close>

definition isDigit :: "jschar \<Rightarrow> bool" where
  "isDigit c = (0x30 \<le> c \<and> c \<le> 0x39)"

text \<open>\<open>s.startsWith(c)\<close>, \<open>s.endsWith(c)\<close> and \<open>s.includes(c)\<close> for a one-character
  argument.\<close>

definition startsWith :: "jsstring \<Rightarrow> jschar \<Rightarrow> bool" where
  "startsWith s c = (case s of [] \<Rightarrow> False | x # _ \<Rightarrow> x = c)"

definition endsWith :: "jsstring \<Rightarrow> jschar \<Rightarrow> bool" where
  "endsWith s c = (case rev s of [] \<Rightarrow> False | x # _ \<Rightarrow> x = c)"

definition includesChar :: "jsstring \<Rightarrow> jschar \<Rightarrow> bool" where
  "includesChar s c = list_ex (\<lambda>x. x = c) s"

section \<open>The tokenizer: parseCopyLine\<close>

text \<open>
  The \<open>while (i < line.length)\<close> loop of \<open>parseCopyLine\<close>, with its index \<open>i\<close> and
  its two accumulators \<open>values\<close> and \<open>current\<close>. The variable \<open>inQuotes\<close> of the
  source is initialised to \<open>false\<close> and never assigned, so \<open>!inQuotes\<close> is always true
  and the first test is \<open>char === '\t'\<close>. An escape that is decoded advances \<open>i\<close> twice
  (the \<open>i++\<close> of its branch and the one closing the loop body).
\<close>

function parseCopyLine_loop ::
  "jsstring \<Rightarrow> nat \<Rightarrow> jsstring list \<Rightarrow> jsstring \<Rightarrow> jsstring list \<times> jsstring" where
  "parseCopyLine_loop line i values current =
     (if i < length line then
        (let char = line ! i in
         if char = TAB then parseCopyLine_loop line (i + 1) (values @ [current]) []
         else if char = BSL \<and> i + 1 < length line then
           (let nextChar = line ! (i + 1) in
            if nextChar = of_char CHR ''N'' then
              parseCopyLine_loop line (i + 2) values (current @ [BSL, of_char CHR ''N''])
            else if nextChar = of_char CHR ''t'' then
              parseCopyLine_loop line (i + 2) values (current @ [TAB])
            else if nextChar = of_char CHR ''n'' then
              parseCopyLine_loop line (i + 2) values (current @ [NL])
            else if nextChar = BSL then
              parseCopyLine_loop line (i + 2) values (current @ [BSL])
            else parseCopyLine_loop line (i + 1) values (current @ [char]))
         else parseCopyLine_loop line (i + 1) values (current @ [char]))
      else (values, current))"
  by pat_completeness auto
termination
  by (relation "measure (\<lambda>(line, i, values, current). length line - i)") auto

declare parseCopyLine_loop.simps [simp del]

text \<open>\<open>if (current) values.push(current)\<close>: a string is truthy when it is not empty.\<close>

definition parseCopyLine :: "jsstring \<Rightarrow> jsstring list" where
  "parseCopyLine line =
     (case parseCopyLine_loop line 0 [] [] of
        (values, current) \<Rightarrow> if current \<noteq> [] then values @ [current] else values)"

text \<open>
  The tokenizer as the specification words it, one rule per kind of input, by recursion
  on the rest of the row: a tab closes the current field; backslash followed by \<open>N\<close>,
  \<open>t\<close>, \<open>n\<close> or backslash is decoded into the field; any other backslash is kept and
  the next character is read on its own; at the end the accumulator is a field when it is
  not empty.
\<close>

fun spec_tokenize_from :: "jsstring list \<Rightarrow> jsstring \<Rightarrow> jsstring \<Rightarrow> jsstring list" where
  "spec_tokenize_from fields acc [] = (if acc = [] then fields else fields @ [acc])"
| "spec_tokenize_from fields acc [c] =
     (if c = TAB then spec_tokenize_from (fields @ [acc]) [] []
      else spec_tokenize_from fields (acc @ [c]) [])"
| "spec_tokenize_from fields acc (c # d # rest) =
     (if c = TAB then spec_tokenize_from (fields @ [acc]) [] (d # rest)
      else if c = BSL then
        (if d = of_char CHR ''N'' then spec_tokenize_from fields (acc @ [BSL, of_char CHR ''N'']) rest
         else if d = of_char CHR ''t'' then spec_tokenize_from fields (acc @ [TAB]) rest
         else if d = of_char CHR ''n'' then spec_tokenize_from fields (acc @ [NL]) rest
         else if d = BSL then spec_tokenize_from fields (acc @ [BSL]) rest
         else spec_tokenize_from fields (acc @ [BSL]) (d # rest))
      else spec_tokenize_from fields (acc @ [c]) (d # rest))"

definition spec_tokenize :: "jsstring \<Rightarrow> jsstring list" where
  "spec_tokenize row = spec_tokenize_from [] [] row"

section \<open>The classifier: formatValueAdvanced\<close>

text \<open>
  \<open>/^-?\d+(\.\d+)?$/.test(value)\<close>. The expression is anchored at both ends and has no
  flag, so \<open>$\<close> is the end of the string. Matching is deterministic: the minus is taken
  when it is there, \<open>\d+\<close> takes every digit that follows, and what is left is either
  nothing or a dot and one or more digits up to the end.
\<close>

definition matchesNumber :: "jsstring \<Rightarrow> bool" where
  "matchesNumber v =
     (let body = (if startsWith v (of_char CHR ''-'') then tl v else v);
          intPart = takeWhile isDigit body;
          rest = dropWhile isDigit body
      in intPart \<noteq> [] \<and>
         (rest = [] \<or>
          (startsWith rest (of_char CHR ''.'') \<and> tl rest \<noteq> [] \<and> list_all isDigit (tl rest))))"

text \<open>\<open>/^\d{4}-\d{2}-\d{2}/.test(value)\<close>: anchored at the start only.\<close>

fun matchesDatePrefix :: "jsstring \<Rightarrow> bool" where
  "matchesDatePrefix (y1 # y2 # y3 # y4 # s1 # m1 # m2 # s2 # d1 # d2 # rest) =
     (isDigit y1 \<and> isDigit y2 \<and> isDigit y3 \<and> isDigit y4 \<and> s1 = of_char CHR ''-'' \<and>
      isDigit m1 \<and> isDigit m2 \<and> s2 = of_char CHR ''-'' \<and> isDigit d1 \<and> isDigit d2)"
| "matchesDatePrefix _ = False"

text \<open>\<open>value.replace(/'/g, "''")\<close> and \<open>.replace(/\0/g, '')\<close>.\<close>

definition doubleQuotes :: "jsstring \<Rightarrow> jsstring" where
  "doubleQuotes s = concat (map (\<lambda>c. if c = SQ then [SQ, SQ] else [c]) s)"

definition removeNulls :: "jsstring \<Rightarrow> jsstring" where
  "removeNulls s = filter (\<lambda>c. c \<noteq> NUL) s"

definition quoted :: "jsstring \<Rightarrow> jsstring" where
  "quoted s = [SQ] @ s @ [SQ]"

definition formatValueAdvanced :: "jsstring \<Rightarrow> jsstring" where
  "formatValueAdvanced v =
     (if v = [BSL, of_char CHR ''N''] \<or> v = [] then js ''NULL''
      else if matchesNumber v then v
      else if v = js ''t'' \<or> v = js ''f'' then quoted v
      else if (startsWith v (of_char CHR ''{'') \<and> endsWith v (of_char CHR ''}'')) \<or>
              (startsWith v (of_char CHR ''['') \<and> endsWith v (of_char CHR '']''))
        then quoted (doubleQuotes v)
      else if matchesDatePrefix v \<and> includesChar v (of_char CHR '':'')
        then quoted (doubleQuotes v)
      else quoted (removeNulls (doubleQuotes v)))"

text \<open>
  The classifier as the specification words it. A number is an optional minus, one or
  more digits, and optionally a dot followed by one or more digits; a bracketed value
  starts with \<open>{\<close> and ends with \<open>}\<close>, or starts with \<open>[\<close> and ends with \<open>]\<close>; a
  timestamp starts with four digits, a dash, two digits, a dash and two digits, and has a
  colon somewhere.
\<close>

definition spec_isNumeric :: "jsstring \<Rightarrow> bool" where
  "spec_isNumeric v =
     (\<exists>sign ds frac. v = sign @ ds @ frac \<and> (sign = [] \<or> sign = js ''-'') \<and>
        ds \<noteq> [] \<and> list_all isDigit ds \<and>
        (frac = [] \<or> (\<exists>fs. frac = js ''.'' @ fs \<and> fs \<noteq> [] \<and> list_all isDigit fs)))"

definition spec_isBracketed :: "jsstring \<Rightarrow> bool" where
  "spec_isBracketed v =
     ((\<exists>m. v = js ''{'' @ m @ js ''}'') \<or> (\<exists>m. v = js ''['' @ m @ js '']''))"

definition spec_isTimestamp :: "jsstring \<Rightarrow> bool" where
  "spec_isTimestamp v =
     ((\<exists>y m d rest. v = y @ js ''-'' @ m @ js ''-'' @ d @ rest \<and>
         length y = 4 \<and> list_all isDigit y \<and> length m = 2 \<and> list_all isDigit m \<and>
         length d = 2 \<and> list_all isDigit d) \<and>
      of_char CHR '':'' \<in> set v)"

primrec spec_doubleQuotes :: "jsstring \<Rightarrow> jsstring" where
  "spec_doubleQuotes [] = []"
| "spec_doubleQuotes (c # cs) =
     (if c = SQ then SQ # SQ # spec_doubleQuotes cs else c # spec_doubleQuotes cs)"

primrec spec_removeNulls :: "jsstring \<Rightarrow> jsstring" where
  "spec_removeNulls [] = []"
| "spec_removeNulls (c # cs) = (if c = NUL then spec_removeNulls cs else c # spec_removeNulls cs)"

definition spec_classify :: "jsstring \<Rightarrow> jsstring" where
  "spec_classify v =
     (if v = [BSL] @ js ''N'' \<or> v = [] then js ''NULL''
      else if spec_isNumeric v then v
      else if v = js ''t'' \<or> v = js ''f'' then [SQ] @ v @ [SQ]
      else if spec_isBracketed v then [SQ] @ spec_doubleQuotes v @ [SQ]
      else if spec_isTimestamp v then [SQ] @ spec_doubleQuotes v @ [SQ]
      else [SQ] @ spec_removeNulls (spec_doubleQuotes v) @ [SQ])"

section \<open>Library functions of JavaScript used by the extractor\<close>

text \<open>\<open>s.split(sep)\<close> for a one-character separator: always at least one piece.\<close>

fun splitOn :: "jschar \<Rightarrow> jsstring \<Rightarrow> jsstring list" where
  "splitOn sep [] = [[]]"
| "splitOn sep (c # cs) =
     (if c = sep then [] # splitOn sep cs
      else (case splitOn sep cs of [] \<Rightarrow> [[c]] | piece # pieces \<Rightarrow> (c # piece) # pieces))"

text \<open>\<open>arr.join(sep)\<close>.\<close>

fun joinWith :: "jsstring \<Rightarrow> jsstring list \<Rightarrow> jsstring" where
  "joinWith sep [] = []"
| "joinWith sep [x] = x"
| "joinWith sep (x # y # ys) = x @ sep @ joinWith sep (y # ys)"

text \<open>
  \<open>s.trim()\<close> removes white space and line terminators at both ends: tab, line feed,
  vertical tab, form feed, carriage return, space, no-break space, the byte order mark,
  the line and paragraph separators and the other space separators of Unicode.
\<close>

definition isWhiteSpace :: "jschar \<Rightarrow> bool" where
  "isWhiteSpace c =
     (c = 0x09 \<or> c = 0x0A \<or> c = 0x0B \<or> c = 0x0C \<or> c = 0x0D \<or> c = 0x20 \<or> c = 0xA0 \<or>
      c = 0x1680 \<or> (0x2000 \<le> c \<and> c \<le> 0x200A) \<or> c = 0x2028 \<or> c = 0x2029 \<or>
      c = 0x202F \<or> c = 0x205F \<or> c = 0x3000 \<or> c = 0xFEFF)"

definition trim :: "jsstring \<Rightarrow> jsstring" where
  "trim s = rev (dropWhile isWhiteSpace (rev (dropWhile isWhiteSpace s)))"

text \<open>
  \<open>s.toLowerCase()\<close>, code unit by code unit. The letters A to Z become a to z. Two
  characters outside ASCII have a lower case with an ASCII letter in it: U+0130 becomes
  \<open>i\<close> followed by U+0307, and the Kelvin sign U+212A becomes \<open>k\<close>. Every other code
  unit outside ASCII is mapped by Unicode to code units outside ASCII; the model leaves
  those as they are, which changes no comparison of the result with ASCII text.
\<close>

definition lowerUnit :: "jschar \<Rightarrow> jsstring" where
  "lowerUnit c =
     (if 0x41 \<le> c \<and> c \<le> 0x5A then [c + 0x20]
      else if c = 0x130 then [0x69, 0x307]
      else if c = 0x212A then [0x6B]
      else [c])"

definition toLowerCase :: "jsstring \<Rightarrow> jsstring" where
  "toLowerCase s = concat (map lowerUnit s)"

text \<open>\<open>s.includes(sub)\<close>: \<open>sub\<close> occurs in \<open>s\<close> as a contiguous run.\<close>

fun isPrefixOf :: "jsstring \<Rightarrow> jsstring \<Rightarrow> bool" where
  "isPrefixOf [] s = True"
| "isPrefixOf (x # xs) [] = False"
| "isPrefixOf (x # xs) (y # ys) = (x = y \<and> isPrefixOf xs ys)"

fun includesStr :: "jsstring \<Rightarrow> jsstring \<Rightarrow> bool" where
  "includesStr [] sub = (sub = [])"
| "includesStr (c # cs) sub = (isPrefixOf sub (c # cs) \<or> includesStr cs sub)"

text \<open>The decimal text of a counter, as a template literal prints a non-negative
  integer.\<close>

fun numberToString :: "nat \<Rightarrow> jsstring" where
  "numberToString n =
     (if n < 10 then [of_nat (48 + n)]
      else numberToString (n div 10) @ [of_nat (48 + n mod 10)])"

declare numberToString.simps [simp del]

section \<open>The block extractor: processDump\<close>

text \<open>
  An entry of \<open>this.data.copies\<close> has the fields \<open>table\<close>, \<open>columns\<close> and \<open>data\<close>,
  where \<open>data\<close> is one string; the open block \<open>currentCopy\<close> has the same fields with
  \<open>data\<close> an array of lines. One record type with the type of \<open>data\<close> as parameter
  serves both.
\<close>

record 'd copy =
  table :: jsstring
  columns :: jsstring
  data :: 'd

type_synonym copySection = "jsstring copy"
type_synonym openCopy = "jsstring list copy"

text \<open>\<open>lines[i].replace(/\r$/, '')\<close>: one carriage return at the very end is removed.\<close>

definition stripCR :: "jsstring \<Rightarrow> jsstring" where
  "stripCR s = (if endsWith s CR then butlast s else s)"

text \<open>
  \<open>line.match(/^COPY ([^"]+"[^"]+") \(([^)]+)\) FROM stdin;?$/)\<close>, returning the two
  groups. A class \<open>[^"]+\<close> followed by a quote can only take the whole run up to the
  next quote, and \<open>[^)]+\<close> followed by \<open>)\<close> the whole run up to the next parenthesis,
  so the match, when there is one, is unique.
\<close>

definition matchCopyHeader :: "jsstring \<Rightarrow> (jsstring \<times> jsstring) option" where
  "matchCopyHeader line =
     (if take 5 line \<noteq> js ''COPY '' then None
      else
        let r1 = drop 5 line;
            schema = takeWhile (\<lambda>c. c \<noteq> DQ) r1;
            r2 = dropWhile (\<lambda>c. c \<noteq> DQ) r1
        in if schema = [] \<or> \<not> startsWith r2 DQ then None
        else
          let name = takeWhile (\<lambda>c. c \<noteq> DQ) (tl r2);
              r3 = dropWhile (\<lambda>c. c \<noteq> DQ) (tl r2)
          in if name = [] \<or> \<not> startsWith r3 DQ then None
          else if take 2 (tl r3) \<noteq> js '' ('' then None
          else
            let r4 = drop 2 (tl r3);
                cols = takeWhile (\<lambda>c. c \<noteq> of_char CHR '')'') r4;
                r5 = dropWhile (\<lambda>c. c \<noteq> of_char CHR '')'') r4
            in if cols = [] \<or> \<not> startsWith r5 (of_char CHR '')'') then None
            else if tl r5 = js '' FROM stdin'' \<or> tl r5 = js '' FROM stdin;''
              then Some (schema @ [DQ] @ name @ [DQ], cols)
            else None)"

record scanState =
  copies :: "copySection list"
  currentCopy :: "openCopy option"
  inCopyData :: bool

text \<open>One iteration of the \<open>for\<close> loop over the lines of the dump, with its three
  exits: a header, a terminator while a block is open, any other line.\<close>

definition processLine :: "scanState \<Rightarrow> jsstring \<Rightarrow> scanState" where
  "processLine st raw =
     (let line = stripCR raw in
      case matchCopyHeader line of
        Some (t, c) \<Rightarrow>
          st\<lparr>currentCopy := Some \<lparr>table = t, columns = c, data = []\<rparr>, inCopyData := True\<rparr>
      | None \<Rightarrow>
          (case currentCopy st of
             None \<Rightarrow> st
           | Some cur \<Rightarrow>
               if line = [BSL, of_char CHR ''.''] \<and> inCopyData st then
                 st\<lparr>copies := copies st @
                       [\<lparr>table = table cur, columns = columns cur,
                         data = joinWith [NL] (data cur)\<rparr>],
                    currentCopy := None, inCopyData := False\<rparr>
               else if inCopyData st then
                 st\<lparr>currentCopy := Some (cur\<lparr>data := data cur @ [line]\<rparr>)\<rparr>
               else st))"

definition initialState :: scanState where
  "initialState = \<lparr>copies = [], currentCopy = None, inCopyData = False\<rparr>"

definition processLines :: "scanState \<Rightarrow> jsstring list \<Rightarrow> scanState" where
  "processLines st ls = foldl processLine st ls"

text \<open>\<open>processDump\<close> on the text of the dump file: the value of \<open>this.data.copies\<close>
  when it returns.\<close>

definition processDump :: "jsstring \<Rightarrow> copySection list" where
  "processDump content = copies (processLines initialState (splitOn NL content))"

section \<open>The script assembler: generateInsertScript\<close>

text \<open>
  The body of the \<open>try\<close> block either completes, with the values of the row, or
  throws, with a message. \<open>encodeRow\<close> is that body as the source has it: the tokenizer,
  then the classifier on every field. Neither has a \<open>throw\<close> nor calls anything that
  fails on a string, so the result is always \<open>Returned\<close>. The loop itself is modelled
  for any body \<open>enc\<close>, so that its \<open>catch\<close> branch is a branch of the model.
\<close>

datatype 'a outcome = Returned 'a | Threw jsstring

definition encodeRow :: "jsstring \<Rightarrow> jsstring list outcome" where
  "encodeRow line = Returned (map formatValueAdvanced (parseCopyLine line))"

definition insertStatement :: "jsstring \<Rightarrow> jsstring list \<Rightarrow> jsstring list \<Rightarrow> jsstring" where
  "insertStatement tableName columnList insertValues =
     (let colStr = joinWith (js '', '') columnList;
          valStr = joinWith (js '', '') insertValues
      in js ''INSERT INTO '' @ tableName @ js '' ('' @ colStr @ js '') VALUES ('' @ valStr @
         js '') ON CONFLICT DO NOTHING;'')"

definition rowError :: "nat \<Rightarrow> jsstring \<Rightarrow> jsstring \<Rightarrow> jsstring" where
  "rowError lineNo tableName message =
     js ''Erro na linha '' @ numberToString lineNo @ js '' da tabela '' @ tableName @
     js '': '' @ message"

text \<open>One iteration of the loop over \<open>dataLines\<close>; the state is the \<open>script\<close> array,
  \<open>this.errors\<close> and \<open>lineCount\<close>.\<close>

fun rowStep ::
  "(jsstring \<Rightarrow> jsstring list outcome) \<Rightarrow> jsstring \<Rightarrow> jsstring list \<Rightarrow>
   jsstring list \<times> jsstring list \<times> nat \<Rightarrow> jsstring \<Rightarrow> jsstring list \<times> jsstring list \<times> nat" where
  "rowStep enc tableName columnList (script, errors, lineCount) line =
     (if trim line = [] then (script, errors, lineCount)
      else
        (case enc line of
           Returned insertValues \<Rightarrow>
             (script @ [insertStatement tableName columnList insertValues], errors, lineCount + 1)
         | Threw message \<Rightarrow>
             (script, errors @ [rowError (lineCount + 1) tableName message], lineCount)))"

definition dataRows ::
  "(jsstring \<Rightarrow> jsstring list outcome) \<Rightarrow> jsstring \<Rightarrow> jsstring list \<Rightarrow>
   jsstring list \<times> jsstring list \<times> nat \<Rightarrow> jsstring list \<Rightarrow> jsstring list \<times> jsstring list \<times> nat" where
  "dataRows enc tableName columnList st dataLines =
     foldl (rowStep enc tableName columnList) st dataLines"

text \<open>\<open>columns.split(',').map(col => col.trim())\<close>.\<close>

definition columnListOf :: "jsstring \<Rightarrow> jsstring list" where
  "columnListOf cols = map trim (splitOn (of_char CHR '','') cols)"

text \<open>One iteration of the loop over \<open>this.data.copies\<close> in \<open>generateInsertScript\<close>.\<close>

fun tableStep ::
  "(jsstring \<Rightarrow> jsstring list outcome) \<Rightarrow> jsstring list \<times> jsstring list \<Rightarrow> copySection \<Rightarrow>
   jsstring list \<times> jsstring list" where
  "tableStep enc (script, errors) copySection =
     (let tableName = table copySection;
          columnList = columnListOf (columns copySection);
          dataLines = splitOn NL (data copySection)
      in case dataRows enc tableName columnList
                (script @ [js ''-- Dados para '' @ tableName], errors, 0) dataLines of
           (script', errors', lineCount) \<Rightarrow>
             ((if lineCount > 0
               then script' @ [js ''-- '' @ numberToString lineCount @
                               js '' registros inseridos em '' @ tableName]
               else script') @ [[]],
              errors'))"

declare tableStep.simps [simp del]

definition addTriggerManagement :: "jsstring list \<Rightarrow> bool \<Rightarrow> jsstring list" where
  "addTriggerManagement script enable =
     script @
     [js ''-- '' @ (if enable then js ''Reabilitar'' else js ''Desabilitar'') @
        js '' triggers para evitar problemas com foreign keys'',
      js ''DO $$'',
      js ''DECLARE'',
      js ''r RECORD;'',
      js ''BEGIN'',
      js ''FOR r IN'',
      js ''SELECT conname, conrelid::regclass::text AS table_name'',
      js ''FROM pg_constraint'',
      js ''WHERE contype = '' @ [SQ] @ js ''f'' @ [SQ],
      js ''LOOP'',
      js ''EXECUTE format('' @ [SQ] @ js ''ALTER TABLE %s '' @
        (if enable then js ''ENABLE'' else js ''DISABLE'') @
        js '' TRIGGER ALL'' @ [SQ] @ js '', r.table_name);'',
      js ''END LOOP;'',
      js ''END $$;'',
      []]"

text \<open>The lines pushed for one column of \<open>idColumns\<close>; \<open>idCol.replace(/"/g, '')\<close> is
  the column name without its double quotes.\<close>

definition unquote :: "jsstring \<Rightarrow> jsstring" where
  "unquote s = filter (\<lambda>c. c \<noteq> DQ) s"

definition sequenceBlock :: "jsstring \<Rightarrow> jsstring \<Rightarrow> jsstring list" where
  "sequenceBlock tableName idCol =
     [js ''-- Ajustar sequence para '' @ tableName @ js ''.'' @ idCol,
      js ''DO $$'',
      js ''DECLARE'',
      js ''    seq_name text;'',
      js ''    max_val bigint;'',
      js ''    col_exists boolean;'',
      js ''BEGIN'',
      js ''    -- Verificar se a coluna existe na tabela'',
      js ''    SELECT EXISTS('',
      js ''        SELECT 1 FROM information_schema.columns'',
      js ''        WHERE table_schema = split_part('' @ [SQ] @ tableName @ [SQ] @ js '', '' @
        [SQ] @ js ''.'' @ [SQ] @ js '', 1)'',
      js ''        AND table_name = split_part('' @ [SQ] @ tableName @ [SQ] @ js '', '' @
        [SQ] @ js ''.'' @ [SQ] @ js '', 2)'',
      js ''        AND column_name = '' @ [SQ] @ unquote idCol @ [SQ],
      js ''    ) INTO col_exists;'',
      js ''    '',
      js ''    IF col_exists THEN'',
      js ''        seq_name := pg_get_serial_sequence('' @ [SQ] @ tableName @ [SQ] @ js '', '' @
        [SQ] @ unquote idCol @ [SQ] @ js '');'',
      js ''        IF seq_name IS NOT NULL THEN'',
      js ''            EXECUTE format('' @ [SQ] @ js ''SELECT COALESCE(MAX(%I), 1) FROM '' @
        tableName @ [SQ] @ js '', '' @ [SQ] @ unquote idCol @ [SQ] @ js '') INTO max_val;'',
      js ''            EXECUTE format('' @ [SQ] @ js ''SELECT setval(%L, %s)'' @ [SQ] @
        js '', seq_name, max_val);'',
      js ''        END IF;'',
      js ''    END IF;'',
      js ''END $$;'',
      []]"

text \<open>The filter of \<open>addSequenceAdjustment\<close>.\<close>

definition isIdColumn :: "jsstring \<Rightarrow> bool" where
  "isIdColumn col =
     (includesStr (toLowerCase col) (js ''id'') \<or> includesStr (toLowerCase col) (js ''_id''))"

definition addSequenceAdjustment :: "jsstring list \<Rightarrow> copySection list \<Rightarrow> jsstring list" where
  "addSequenceAdjustment script cps =
     foldl (\<lambda>script copySection.
              let tableName = table copySection;
                  columnList = columnListOf (columns copySection);
                  idColumns = filter isIdColumn columnList
              in foldl (\<lambda>script idCol. script @ sequenceBlock tableName idCol) script idColumns)
       (script @ [js ''-- Ajustar sequences das chaves prim'' @ [0xE1] @ js ''rias''])
       cps"

text \<open>
  \<open>generateInsertScript\<close> up to the test \<open>this.errors.length > 0\<close>: the \<open>script\<close>
  array and \<open>this.errors\<close> at that point. \<open>now\<close> is the text that
  \<open>new Date().toISOString()\<close> returns.
\<close>

definition scriptBeforeWarnings ::
  "(jsstring \<Rightarrow> jsstring list outcome) \<Rightarrow> copySection list \<Rightarrow> jsstring list \<Rightarrow> jsstring \<Rightarrow>
   jsstring list \<times> jsstring list" where
  "scriptBeforeWarnings enc cps errors now =
     (let script = [js ''-- Script de Inser'' @ [0xE7, 0xE3] @ js ''o de Dados via INSERT INTO'',
                    js ''-- Gerado automaticamente a partir do dump'',
                    js ''-- Data: '' @ now,
                    js ''-- Vers'' @ [0xE3] @ js ''o: Advanced'',
                    []];
          script = addTriggerManagement script False;
          script = script @ [js ''-- Inserir dados'']
      in case foldl (tableStep enc) (script, errors) cps of
           (script, errors) \<Rightarrow>
             (addSequenceAdjustment (addTriggerManagement script True) cps, errors))"

definition warningLines :: "jsstring list \<Rightarrow> jsstring list" where
  "warningLines errors =
     [js ''-- AVISOS:'',
      js ''-- Os seguintes erros foram encontrados durante o processamento:''] @
     map (\<lambda>error. js ''-- '' @ error) errors @ [[]]"

text \<open>The whole of \<open>generateInsertScript\<close>: the text returned and \<open>this.errors\<close>
  afterwards.\<close>

definition generateInsertScriptWith ::
  "(jsstring \<Rightarrow> jsstring list outcome) \<Rightarrow> copySection list \<Rightarrow> jsstring list \<Rightarrow> jsstring \<Rightarrow>
   jsstring \<times> jsstring list" where
  "generateInsertScriptWith enc cps errors now =
     (case scriptBeforeWarnings enc cps errors now of
        (script, errors) \<Rightarrow>
          (joinWith [NL] (if errors \<noteq> [] then script @ warningLines errors else script),
           errors))"

definition generateInsertScript ::
  "copySection list \<Rightarrow> jsstring list \<Rightarrow> jsstring \<Rightarrow> jsstring \<times> jsstring list" where
  "generateInsertScript = generateInsertScriptWith encodeRow"

text \<open>
  \<open>main\<close> on a dump file that exists: a new extractor (no copies, no errors),
  \<open>processDump\<close>, then \<open>saveScript\<close>, which writes what \<open>generateInsertScript\<close>
  returns. The result is the text written to the output file.
\<close>

definition main :: "jsstring \<Rightarrow> jsstring \<Rightarrow> jsstring" where
  "main content now = fst (generateInsertScript (processDump content) [] now)"

section \<open>Notions used to state the properties\<close>

text \<open>A column name contains \<open>id\<close> case-insensitively, as the specification words it:
  somewhere in it an \<open>i\<close> or \<open>I\<close> is followed at once by a \<open>d\<close> or \<open>D\<close>.\<close>

definition spec_containsId :: "jsstring \<Rightarrow> bool" where
  "spec_containsId col =
     (\<exists>pre i d post. col = pre @ [i, d] @ post \<and>
        (i = of_char CHR ''i'' \<or> i = of_char CHR ''I'') \<and>
        (d = of_char CHR ''d'' \<or> d = of_char CHR ''D''))"

text \<open>The lines of the sequence section that one block of the dump contributes.\<close>

definition sequenceLines :: "copySection \<Rightarrow> jsstring list" where
  "sequenceLines c =
     concat (map (sequenceBlock (table c)) (filter isIdColumn (columnListOf (columns c))))"

text \<open>The lines that the script has for one block of the dump, as the specification
  words them: the heading comment, one \<open>INSERT\<close> statement for every row that is not
  blank, in order, the comment with the number of those rows when there is one, and an
  empty line.\<close>

definition spec_tableSection :: "copySection \<Rightarrow> jsstring list" where
  "spec_tableSection c =
     (let rows = filter (\<lambda>line. trim line \<noteq> []) (splitOn NL (data c))
      in [js ''-- Dados para '' @ table c] @
         map (\<lambda>line. insertStatement (table c) (columnListOf (columns c))
                       (map formatValueAdvanced (parseCopyLine line))) rows @
         (if rows \<noteq> []
          then [js ''-- '' @ numberToString (length rows) @ js '' registros inseridos em '' @ table c]
          else []) @
         [[]])"

text \<open>The text of the script before the timestamp, and the lines of the script around
  the timestamp line.\<close>

definition headLines :: "jsstring list" where
  "headLines = [js ''-- Script de Inser'' @ [0xE7, 0xE3] @ js ''o de Dados via INSERT INTO'',
                js ''-- Gerado automaticamente a partir do dump'']"

definition scriptPrefix :: jsstring where
  "scriptPrefix =
     js ''-- Script de Inser'' @ [0xE7, 0xE3] @ js ''o de Dados via INSERT INTO'' @ [NL] @
     js ''-- Gerado automaticamente a partir do dump'' @ [NL] @ js ''-- Data: ''"

definition bodyLines ::
  "(jsstring \<Rightarrow> jsstring list outcome) \<Rightarrow> copySection list \<Rightarrow> jsstring list" where
  "bodyLines enc cps =
     [js ''-- Vers'' @ [0xE3] @ js ''o: Advanced'', []] @ addTriggerManagement [] False @
     [js ''-- Inserir dados''] @
     concat (map (\<lambda>c. fst (tableStep enc ([], []) c)) cps) @
     addTriggerManagement [] True @
     [js ''-- Ajustar sequences das chaves prim'' @ [0xE1] @ js ''rias''] @
     concat (map sequenceLines cps)"

section \<open>Example inputs\<close>

text \<open>A table identifier as the header pattern captures it, and a header line and a
  captured block for a table with the columns \<open>id\<close> and \<open>name\<close>.\<close>

definition exampleTable :: jsstring where
  "exampleTable = js ''public.'' @ [DQ] @ js ''media'' @ [DQ]"

definition exampleHeader :: "jsstring \<Rightarrow> jsstring" where
  "exampleHeader name = js ''COPY s.'' @ [DQ] @ name @ [DQ] @ js '' (id, name) FROM stdin;''"

definition exampleBlock :: "jsstring \<Rightarrow> copySection" where
  "exampleBlock rows =
     \<lparr>table = js ''s.'' @ [DQ] @ js ''t'' @ [DQ], columns = js ''id, name'', data = rows\<rparr>"

section \<open>Basic facts\<close>

lemma js_Nil [simp]: "js [] = []"
  by (simp add: js_def)

lemma js_Cons [simp]: "js (c # cs) = of_char c # js cs"
  by (simp add: js_def)

section \<open>The tokenizer against its specification\<close>

text \<open>The loop started at the end of any prefix \<open>pre\<close> of the row, followed by the final
  push, is the rule-by-rule tokenizer on what is left of the row.\<close>

lemma parseCopyLine_loop_spec:
  "(case parseCopyLine_loop (pre @ r) (length pre) vs cur of
      (values, current) \<Rightarrow> if current \<noteq> [] then values @ [current] else values)
   = spec_tokenize_from vs cur r"
proof (induction vs cur r arbitrary: pre rule: spec_tokenize_from.induct)
  case (1 flds acc)
  then show ?case by (simp add: parseCopyLine_loop.simps[of pre "length pre"])
next
  case (2 flds acc c)
  show ?case
    using 2[of "pre @ [c]"]
    by (simp add: parseCopyLine_loop.simps[of "pre @ [c]" "length pre"] nth_append)
next
  case (3 flds acc c d rest)
  show ?case
    using 3(1)[of "pre @ [c]"] 3(2)[of "pre @ [c, d]"] 3(3)[of "pre @ [c, d]"]
      3(4)[of "pre @ [c, d]"] 3(5)[of "pre @ [c, d]"] 3(6)[of "pre @ [c]"] 3(7)[of "pre @ [c]"]
    by (simp add: parseCopyLine_loop.simps[of "pre @ c # d # rest" "length pre"] nth_append)
qed

lemma parseCopyLine_spec: "parseCopyLine row = spec_tokenize_from [] [] row"
  using parseCopyLine_loop_spec[of "[]" row "[]" "[]"] by (simp add: parseCopyLine_def)

lemma tok_prefix:
  "spec_tokenize_from (f1 @ f2) acc r = f1 @ spec_tokenize_from f2 acc r"
  by (induction f2 acc r rule: spec_tokenize_from.induct) simp_all

lemma tok_fields_ne:
  "flds \<noteq> [] \<Longrightarrow> spec_tokenize_from flds acc r = flds @ spec_tokenize_from [] acc r"
  using tok_prefix[of flds "[]"] by simp

lemma tok_tab: "spec_tokenize_from flds acc (TAB # r) = spec_tokenize_from (flds @ [acc]) [] r"
  by (cases r) simp_all

lemma tok_split:
  "spec_tokenize_from flds acc (l @ TAB # r) =
   spec_tokenize_from flds acc (l @ [TAB]) @ spec_tokenize_from [] [] r"
proof (induction flds acc l rule: spec_tokenize_from.induct)
  case (1 flds acc)
  show ?case by (simp add: tok_tab tok_fields_ne)
next
  case (2 flds acc c)
  show ?case using 2 by (simp add: tok_tab tok_fields_ne)
next
  case (3 flds acc c d rest)
  show ?case using 3 by simp
qed

lemma tok_count:
  "length (spec_tokenize_from flds acc (l @ [TAB])) = length flds + count_list (l @ [TAB]) TAB"
proof (induction flds acc l rule: spec_tokenize_from.induct)
  case (1 flds acc)
  show ?case by simp
next
  case (2 flds acc c)
  show ?case using 2 by simp
next
  case (3 flds acc c d rest)
  show ?case
  proof (cases "c = TAB")
    case True
    with 3(1) show ?thesis by simp
  next
    case cT: False
    show ?thesis
    proof (cases "c = BSL")
      case False
      with cT 3(7) show ?thesis by simp
    next
      case True
      with cT 3(2-6) show ?thesis by (cases "d = TAB") auto
    qed
  qed
qed

lemma tok_empty: "(spec_tokenize_from flds acc r = []) = (flds = [] \<and> acc = [] \<and> r = [])"
  by (induction flds acc r rule: spec_tokenize_from.induct) auto

text \<open>
  Claim C2. For every raw row, \<open>parseCopyLine\<close> scans left to right and splits on tab
  characters, decoding backslash escapes into the current field: backslash-N is kept as
  the two-character token, backslash-t gives a tab that does not split, backslash-n a
  newline, backslash-backslash one backslash; any other backslash is kept and the next
  character is read on the following iteration; a non-empty accumulator at the end is
  the last field. That is, the loop of the source computes the rule-by-rule tokenizer
  \<open>spec_tokenize\<close>. In particular the row \<open>1\<close>, tab, \<open>Joao Silva\<close> (its third letter the code unit U+00E3), tab, backslash-N,
  tab, \<open>2025-06-09 16:02:21.497\<close> gives exactly these four fields.
\<close>

theorem parseCopyLine_tokenizes:
  "parseCopyLine row = spec_tokenize row \<and>
   parseCopyLine (js ''1'' @ [TAB] @ js ''Jo'' @ [0xE3] @ js ''o Silva'' @ [TAB] @
                  [BSL] @ js ''N'' @ [TAB] @ js ''2025-06-09 16:02:21.497'')
     = [js ''1'', js ''Jo'' @ [0xE3] @ js ''o Silva'', [BSL] @ js ''N'',
        js ''2025-06-09 16:02:21.497'']"
  by (simp add: parseCopyLine_spec spec_tokenize_def)

text \<open>The escapes of claim C2 on one row: a decoded tab stays inside its field, a
  backslash before any other character is kept, and so is one at the very end.\<close>

theorem parseCopyLine_tokenizes_witness:
  "parseCopyLine (js ''a'' @ [BSL] @ js ''tb'' @ [TAB] @ [BSL, BSL] @ js ''n'' @ [BSL] @ js ''n'' @
                  [TAB] @ [BSL] @ js ''x'' @ [BSL])
     = [js ''a'' @ [TAB] @ js ''b'', [BSL] @ js ''n'' @ [NL], [BSL] @ js ''x'' @ [BSL]]"
  using parseCopyLine_tokenizes[of "js ''a'' @ [BSL] @ js ''tb'' @ [TAB] @ [BSL, BSL] @ js ''n'' @
      [BSL] @ js ''n'' @ [TAB] @ [BSL] @ js ''x'' @ [BSL]"]
  by (simp add: spec_tokenize_def)

text \<open>
  Claim C6. A row that ends at a tab loses its final empty field: the fields of
  \<open>l\<close> followed by a tab and \<open>r\<close> are the fields closed by that tab followed by the
  fields of \<open>r\<close>, and \<open>r\<close> gives no field at all exactly when it is empty, so a row ending
  in a tab has as many fields as it has tabs. An empty field that a tab closes is kept:
  the row made of one tab has one empty field, and two tabs in a row give an empty field
  between them.
\<close>

theorem parseCopyLine_trailing_empty_field:
  "parseCopyLine (l @ TAB # r) = parseCopyLine (l @ [TAB]) @ parseCopyLine r \<and>
   (parseCopyLine r = []) = (r = []) \<and>
   length (parseCopyLine (l @ [TAB])) = count_list (l @ [TAB]) TAB \<and>
   parseCopyLine [TAB] = [[]] \<and>
   parseCopyLine (l @ [TAB, TAB]) = parseCopyLine (l @ [TAB]) @ [[]]"
proof -
  have a: "parseCopyLine (l @ TAB # r) = parseCopyLine (l @ [TAB]) @ parseCopyLine r" for r
    using tok_split[of "[]" "[]" l r] by (simp add: parseCopyLine_spec)
  have b: "(parseCopyLine r = []) = (r = [])"
    by (simp add: parseCopyLine_spec tok_empty)
  have c: "length (parseCopyLine (l @ [TAB])) = count_list (l @ [TAB]) TAB"
    using tok_count[of "[]" "[]" l] by (simp add: parseCopyLine_spec)
  have d: "parseCopyLine [TAB] = [[]]"
    by (simp add: parseCopyLine_spec)
  from a[of "[TAB]"] d have e: "parseCopyLine (l @ [TAB, TAB]) = parseCopyLine (l @ [TAB]) @ [[]]"
    by simp
  from a b c d e show ?thesis by blast
qed

text \<open>Claim C6 on the rows \<open>a\<close>, tab (one field, not two) and \<open>a\<close>, tab, tab, \<open>b\<close>
  (three fields, the middle one empty).\<close>

theorem parseCopyLine_trailing_empty_field_witness:
  "parseCopyLine (js ''a'' @ [TAB]) = [js ''a''] \<and>
   parseCopyLine (js ''a'' @ [TAB, TAB] @ js ''b'') = [js ''a'', [], js ''b'']"
  using parseCopyLine_trailing_empty_field[of "js ''a''" "[]"]
    parseCopyLine_trailing_empty_field[of "js ''a'' @ [TAB]" "js ''b''"]
  by (simp add: parseCopyLine_spec)

section \<open>The classifier against its specification\<close>

lemma not_digit_minus: "\<not> isDigit 0x2D"
  by (simp add: isDigit_def)

lemma not_digit_dot: "\<not> isDigit 0x2E"
  by (simp add: isDigit_def)

lemma matchesNumber_spec: "matchesNumber v = spec_isNumeric v"
proof
  assume m: "matchesNumber v"
  define sign where "sign = (if startsWith v 0x2D then [0x2D] else ([]::jsstring))"
  define body where "body = (if startsWith v 0x2D then tl v else v)"
  have v: "v = sign @ body"
    by (cases v) (auto simp: sign_def body_def startsWith_def)
  have b: "body = takeWhile isDigit body @ dropWhile isDigit body" by simp
  from m have ne: "takeWhile isDigit body \<noteq> []"
    and r: "dropWhile isDigit body = [] \<or>
       (startsWith (dropWhile isDigit body) 0x2E \<and> tl (dropWhile isDigit body) \<noteq> [] \<and>
        list_all isDigit (tl (dropWhile isDigit body)))"
    by (simp_all add: matchesNumber_def body_def Let_def)
  have d: "list_all isDigit (takeWhile isDigit body)"
    by (simp add: list_all_iff) (meson set_takeWhileD)
  from r have "dropWhile isDigit body = [] \<or>
     (\<exists>fs. dropWhile isDigit body = js ''.'' @ fs \<and> fs \<noteq> [] \<and> list_all isDigit fs)"
    by (cases "dropWhile isDigit body") (auto simp: startsWith_def)
  with v b ne d show "spec_isNumeric v"
    unfolding spec_isNumeric_def
    by (intro exI[of _ sign] exI[of _ "takeWhile isDigit body"] exI[of _ "dropWhile isDigit body"])
       (auto simp: sign_def)
next
  assume "spec_isNumeric v"
  then obtain sign ds frac where v: "v = sign @ ds @ frac"
    and s: "sign = [] \<or> sign = js ''-''" and ne: "ds \<noteq> []" and d: "list_all isDigit ds"
    and f: "frac = [] \<or> (\<exists>fs. frac = js ''.'' @ fs \<and> fs \<noteq> [] \<and> list_all isDigit fs)"
    unfolding spec_isNumeric_def by blast
  from ne d have hd: "isDigit (hd ds)" by (cases ds) auto
  then have hdm: "hd ds \<noteq> 0x2D" using not_digit_minus by auto
  have body: "(if startsWith v (of_char CHR ''-'') then tl v else v) = ds @ frac"
    using s v ne hdm by (cases ds) (auto simp: startsWith_def)
  have tw: "takeWhile isDigit (ds @ frac) = ds" and dw: "dropWhile isDigit (ds @ frac) = frac"
    using d f not_digit_dot by (auto simp: list_all_iff takeWhile_append2 dropWhile_append2)
  show "matchesNumber v"
    unfolding matchesNumber_def Let_def body tw dw
    using ne f by (auto simp: startsWith_def)
qed

lemma bracketed_spec:
  "((startsWith v (of_char CHR ''{'') \<and> endsWith v (of_char CHR ''}'')) \<or>
    (startsWith v (of_char CHR ''['') \<and> endsWith v (of_char CHR '']''))) = spec_isBracketed v"
proof (cases v rule: rev_cases)
  case Nil
  then show ?thesis by (simp add: spec_isBracketed_def startsWith_def endsWith_def)
next
  case (snoc m c)
  then show ?thesis
    by (cases m) (auto simp: spec_isBracketed_def startsWith_def endsWith_def)
qed

lemma doubleQuotes_spec: "doubleQuotes v = spec_doubleQuotes v"
  by (induction v) (simp_all add: doubleQuotes_def)

lemma removeNulls_spec: "removeNulls v = spec_removeNulls v"
  by (induction v) (simp_all add: removeNulls_def)

lemma includesChar_iff: "includesChar v c = (c \<in> set v)"
  by (auto simp: includesChar_def list_ex_iff)

lemma datePrefix_spec:
  "(matchesDatePrefix v \<and> includesChar v (of_char CHR '':'')) = spec_isTimestamp v"
proof
  assume a: "matchesDatePrefix v \<and> includesChar v (of_char CHR '':'')"
  then obtain y1 y2 y3 y4 s1 m1 m2 s2 d1 d2 rest where
    v: "v = y1 # y2 # y3 # y4 # s1 # m1 # m2 # s2 # d1 # d2 # rest"
    by (cases v rule: matchesDatePrefix.cases) simp_all
  with a have "v = [y1, y2, y3, y4] @ js ''-'' @ [m1, m2] @ js ''-'' @ [d1, d2] @ rest"
    "list_all isDigit [y1, y2, y3, y4]" "list_all isDigit [m1, m2]" "list_all isDigit [d1, d2]"
    by simp_all
  moreover from a have "of_char CHR '':'' \<in> set v" by (simp add: includesChar_iff)
  ultimately show "spec_isTimestamp v"
    unfolding spec_isTimestamp_def
    by (intro conjI exI[of _ "[y1, y2, y3, y4]"] exI[of _ "[m1, m2]"] exI[of _ "[d1, d2]"]
          exI[of _ rest]) simp_all
next
  assume "spec_isTimestamp v"
  then obtain y m d rest where v: "v = y @ js ''-'' @ m @ js ''-'' @ d @ rest"
    and l: "length y = 4" "length m = 2" "length d = 2"
    and dg: "list_all isDigit y" "list_all isDigit m" "list_all isDigit d"
    and c: "of_char CHR '':'' \<in> set v"
    unfolding spec_isTimestamp_def by blast
  from l(1) obtain y1 y2 y3 y4 where "y = [y1, y2, y3, y4]"
    by (auto simp: length_Suc_conv eval_nat_numeral)
  moreover from l(2) obtain m1 m2 where "m = [m1, m2]"
    by (auto simp: length_Suc_conv eval_nat_numeral)
  moreover from l(3) obtain d1 d2 where "d = [d1, d2]"
    by (auto simp: length_Suc_conv eval_nat_numeral)
  ultimately have "y = [y1, y2, y3, y4]" "m = [m1, m2]" "d = [d1, d2]" by simp_all
  with v dg c show "matchesDatePrefix v \<and> includesChar v (of_char CHR '':'')"
    by (simp add: includesChar_iff)
qed

text \<open>
  Claim C1. For every decoded field \<open>v\<close>, \<open>formatValueAdvanced\<close> gives the literal of
  the first rule that applies, in this order: (1) backslash-N or the empty string gives
  \<open>NULL\<close>; (2) a number (optional minus, digits, optionally a dot and digits) is
  returned as it is; (3) \<open>t\<close> or \<open>f\<close> is wrapped in single quotes; (4) a value in braces
  or in square brackets has its single quotes doubled and is wrapped in single quotes;
  (5) so has a value with a date prefix and a colon; (6) anything else has its single
  quotes doubled and its null characters removed, and is wrapped in single quotes.
\<close>

theorem formatValueAdvanced_precedence:
  "formatValueAdvanced v = spec_classify v"
  unfolding formatValueAdvanced_def spec_classify_def matchesNumber_spec bracketed_spec
    datePrefix_spec doubleQuotes_spec removeNulls_spec quoted_def
  by simp

text \<open>The examples of claim C1: backslash-N, \<open>42\<close>, \<open>3.14\<close>, \<open>t\<close>, \<open>O'Brien\<close>,
  \<open>{1,2,3}\<close> and \<open>2025-06-09 16:02:21.497\<close>, each with the literal the source computes,
  which is the one the rules give.\<close>

theorem formatValueAdvanced_precedence_witness:
  "spec_classify ([BSL] @ js ''N'') = js ''NULL'' \<and>
   spec_classify (js ''42'') = js ''42'' \<and>
   spec_classify (js ''3.14'') = js ''3.14'' \<and>
   spec_classify (js ''t'') = [SQ] @ js ''t'' @ [SQ] \<and>
   spec_classify (js ''O'Brien'') = [SQ] @ js ''O'' @ [SQ, SQ] @ js ''Brien'' @ [SQ] \<and>
   spec_classify (js ''{1,2,3}'') = [SQ] @ js ''{1,2,3}'' @ [SQ] \<and>
   spec_classify (js ''2025-06-09 16:02:21.497'') = [SQ] @ js ''2025-06-09 16:02:21.497'' @ [SQ]"
proof -
  have "formatValueAdvanced ([BSL] @ js ''N'') = js ''NULL''"
    "formatValueAdvanced (js ''42'') = js ''42''"
    "formatValueAdvanced (js ''3.14'') = js ''3.14''"
    "formatValueAdvanced (js ''t'') = [SQ] @ js ''t'' @ [SQ]"
    "formatValueAdvanced (js ''O'Brien'') = [SQ] @ js ''O'' @ [SQ, SQ] @ js ''Brien'' @ [SQ]"
    "formatValueAdvanced (js ''{1,2,3}'') = [SQ] @ js ''{1,2,3}'' @ [SQ]"
    "formatValueAdvanced (js ''2025-06-09 16:02:21.497'') =
       [SQ] @ js ''2025-06-09 16:02:21.497'' @ [SQ]"
    by (simp_all add: formatValueAdvanced_def matchesNumber_def startsWith_def endsWith_def
        isDigit_def quoted_def doubleQuotes_def removeNulls_def includesChar_def)
  then show ?thesis
    unfolding formatValueAdvanced_precedence by blast
qed

section \<open>The block extractor: how the state moves\<close>

lemma processLines_append:
  "processLines st (xs @ ys) = processLines (processLines st xs) ys"
  by (simp add: processLines_def)

lemma processLines_Cons:
  "processLines st (x # xs) = processLines (processLine st x) xs"
  by (simp add: processLines_def)

lemma processLines_Nil: "processLines st [] = st"
  by (simp add: processLines_def)

lemma processLine_header:
  "matchCopyHeader (stripCR h) = Some (t, c) \<Longrightarrow>
   processLine st h = st\<lparr>currentCopy := Some \<lparr>table = t, columns = c, data = []\<rparr>, inCopyData := True\<rparr>"
  by (simp add: processLine_def)

lemma processLine_keeps_copies:
  "stripCR l \<noteq> [BSL, of_char CHR ''.''] \<Longrightarrow>
   \<exists>cc icd. processLine st l = st\<lparr>currentCopy := cc, inCopyData := icd\<rparr>"
proof (cases "matchCopyHeader (stripCR l)")
  case None
  assume nt: "stripCR l \<noteq> [BSL, of_char CHR ''.'']"
  show ?thesis
  proof (cases "currentCopy st")
    case N: None
    have "processLine st l = st\<lparr>currentCopy := currentCopy st, inCopyData := inCopyData st\<rparr>"
      using None N by (simp add: processLine_def)
    then show ?thesis by blast
  next
    case (Some cur)
    show ?thesis
    proof (cases "inCopyData st")
      case True
      have "processLine st l =
        st\<lparr>currentCopy := Some (cur\<lparr>data := data cur @ [stripCR l]\<rparr>), inCopyData := inCopyData st\<rparr>"
        using None Some True nt by (simp add: processLine_def Let_def)
      then show ?thesis by blast
    next
      case False
      have "processLine st l = st\<lparr>currentCopy := currentCopy st, inCopyData := inCopyData st\<rparr>"
        using None Some False nt by (simp add: processLine_def Let_def)
      then show ?thesis by blast
    qed
  qed
next
  case (Some tc)
  then obtain t c where "matchCopyHeader (stripCR l) = Some (t, c)" by (cases tc) auto
  from processLine_header[OF this] show ?thesis by blast
qed

lemma processLines_keeps_copies:
  "\<forall>l\<in>set ls. stripCR l \<noteq> [BSL, of_char CHR ''.''] \<Longrightarrow>
   \<exists>cc icd. processLines st ls = st\<lparr>currentCopy := cc, inCopyData := icd\<rparr>"
proof (induction ls arbitrary: st)
  case Nil
  have "processLines st [] = st\<lparr>currentCopy := currentCopy st, inCopyData := inCopyData st\<rparr>"
    by (simp add: processLines_Nil)
  then show ?case by blast
next
  case (Cons l ls)
  then obtain cc icd where 1: "processLine st l = st\<lparr>currentCopy := cc, inCopyData := icd\<rparr>"
    using processLine_keeps_copies[of l st] by auto
  from Cons obtain cc' icd' where
    "processLines (processLine st l) ls = (processLine st l)\<lparr>currentCopy := cc', inCopyData := icd'\<rparr>"
    by fastforce
  with 1 have "processLines st (l # ls) = st\<lparr>currentCopy := cc', inCopyData := icd'\<rparr>"
    by (simp add: processLines_Cons)
  then show ?case by blast
qed

lemma header_not_terminator:
  "matchCopyHeader l \<noteq> None \<Longrightarrow> l \<noteq> [BSL, of_char CHR ''.'']"
  by (auto simp: matchCopyHeader_def)

lemma open_block_discarded:
  assumes h: "matchCopyHeader (stripCR h) \<noteq> None"
    and r: "\<forall>l\<in>set rest. stripCR l \<noteq> [BSL, of_char CHR ''.'']"
  shows "copies (processLines st (h # rest)) = copies st"
proof -
  from h have "stripCR h \<noteq> [BSL, of_char CHR ''.'']" by (rule header_not_terminator)
  with r have "\<forall>l\<in>set (h # rest). stripCR l \<noteq> [BSL, of_char CHR ''.'']" by simp
  from processLines_keeps_copies[OF this, of st] show ?thesis by auto
qed

lemma second_header_state:
  assumes h1: "matchCopyHeader (stripCR h1) \<noteq> None"
    and m: "\<forall>l\<in>set mid. stripCR l \<noteq> [BSL, of_char CHR ''.'']"
    and h2: "matchCopyHeader (stripCR h2) = Some (t2, c2)"
  shows "processLines st (h1 # mid @ [h2]) =
         st\<lparr>currentCopy := Some \<lparr>table = t2, columns = c2, data = []\<rparr>, inCopyData := True\<rparr>"
proof -
  from h1 have "stripCR h1 \<noteq> [BSL, of_char CHR ''.'']" by (rule header_not_terminator)
  with m have "\<forall>l\<in>set (h1 # mid). stripCR l \<noteq> [BSL, of_char CHR ''.'']" by simp
  from processLines_keeps_copies[OF this, of st] obtain cc icd where
    1: "processLines st (h1 # mid) = st\<lparr>currentCopy := cc, inCopyData := icd\<rparr>" by blast
  have "processLines st (h1 # mid @ [h2]) = processLine (processLines st (h1 # mid)) h2"
    using processLines_append[of st "h1 # mid" "[h2]"]
    by (simp add: processLines_Cons processLines_Nil)
  with 1 processLine_header[OF h2] show ?thesis by simp
qed


section \<open>The script assembler: what each loop appends\<close>

lemma rowStep_frame:
  "rowStep enc t cl (s, e, n) line =
   (case rowStep enc t cl ([], [], n) line of (s', e', n') \<Rightarrow> (s @ s', e @ e', n'))"
  by (simp split: outcome.split)

lemma dataRows_frame:
  "dataRows enc t cl (s, e, n) rows =
   (case dataRows enc t cl ([], [], n) rows of (s', e', n') \<Rightarrow> (s @ s', e @ e', n'))"
proof (induction rows arbitrary: s e n)
  case Nil
  show ?case by (simp add: dataRows_def)
next
  case (Cons r rows)
  obtain s1 e1 n1 where 1: "rowStep enc t cl ([], [], n) r = (s1, e1, n1)"
    by (cases "rowStep enc t cl ([], [], n) r") auto
  then have 2: "rowStep enc t cl (s, e, n) r = (s @ s1, e @ e1, n1)"
    using rowStep_frame[of enc t cl s e n r] by simp
  obtain s2 e2 n2 where 3: "dataRows enc t cl ([], [], n1) rows = (s2, e2, n2)"
    by (cases "dataRows enc t cl ([], [], n1) rows") auto
  have a: "dataRows enc t cl (s, e, n) (r # rows) = dataRows enc t cl (s @ s1, e @ e1, n1) rows"
    using 2 by (simp add: dataRows_def)
  have b: "dataRows enc t cl ([], [], n) (r # rows) = dataRows enc t cl (s1, e1, n1) rows"
    using 1 by (simp add: dataRows_def)
  show ?case
    unfolding a b
    using Cons[of "s @ s1" "e @ e1" n1] Cons[of s1 e1 n1] 3 by simp
qed

lemma dataRows_append:
  "dataRows enc t cl st (xs @ ys) = dataRows enc t cl (dataRows enc t cl st xs) ys"
  by (simp add: dataRows_def)

lemma tableStep_frame:
  "tableStep enc (s, e) c =
   (case tableStep enc ([], []) c of (s', e') \<Rightarrow> (s @ s', e @ e'))"
proof -
  let ?t = "table c" and ?cl = "columnListOf (columns c)" and ?rows = "splitOn NL (data c)"
  let ?h = "js ''-- Dados para '' @ ?t"
  obtain s2 e2 n2 where 3: "dataRows enc ?t ?cl ([], [], 0) ?rows = (s2, e2, n2)"
    by (cases "dataRows enc ?t ?cl ([], [], 0) ?rows") auto
  have a: "dataRows enc ?t ?cl (s @ [?h], e, 0) ?rows = ((s @ [?h]) @ s2, e @ e2, n2)"
    using dataRows_frame[of enc ?t ?cl "s @ [?h]" e 0 ?rows] 3 by simp
  have b: "dataRows enc ?t ?cl ([?h], [], 0) ?rows = ([?h] @ s2, e2, n2)"
    using dataRows_frame[of enc ?t ?cl "[?h]" "[]" 0 ?rows] 3 by simp
  show ?thesis
    using a b by (simp add: tableStep.simps Let_def)
qed

lemma tables_frame:
  "foldl (tableStep enc) (s, e) cps =
   (case foldl (tableStep enc) ([], []) cps of (s', e') \<Rightarrow> (s @ s', e @ e'))"
proof (induction cps arbitrary: s e)
  case Nil
  show ?case by simp
next
  case (Cons c cps)
  obtain s1 e1 where 1: "tableStep enc ([], []) c = (s1, e1)"
    by (cases "tableStep enc ([], []) c") auto
  then have 2: "tableStep enc (s, e) c = (s @ s1, e @ e1)"
    using tableStep_frame[of enc s e c] by simp
  obtain s2 e2 where 3: "foldl (tableStep enc) ([], []) cps = (s2, e2)"
    by (cases "foldl (tableStep enc) ([], []) cps") auto
  show ?case
    using Cons[of "s @ s1" "e @ e1"] Cons[of s1 e1] 1 2 3 by simp
qed

lemma tables_concat:
  "foldl (tableStep enc) ([], []) cps =
   (concat (map (\<lambda>c. fst (tableStep enc ([], []) c)) cps),
    concat (map (\<lambda>c. snd (tableStep enc ([], []) c)) cps))"
proof (induction cps rule: rev_induct)
  case Nil
  show ?case by simp
next
  case (snoc c cps)
  obtain s1 e1 where 1: "tableStep enc ([], []) c = (s1, e1)"
    by (cases "tableStep enc ([], []) c") auto
  show ?case
    using snoc 1 tableStep_frame[of enc "concat (map (\<lambda>c. fst (tableStep enc ([], []) c)) cps)"
        "concat (map (\<lambda>c. snd (tableStep enc ([], []) c)) cps)" c]
    by simp
qed

lemma addTriggerManagement_frame:
  "addTriggerManagement s b = s @ addTriggerManagement [] b"
  by (simp add: addTriggerManagement_def)

lemma addTriggerManagement_frame_ne:
  "s \<noteq> [] \<Longrightarrow> addTriggerManagement s b = s @ addTriggerManagement [] b"
  by (rule addTriggerManagement_frame)

lemma sequence_columns:
  "foldl (\<lambda>script idCol. script @ sequenceBlock t idCol) s cols =
   s @ concat (map (sequenceBlock t) cols)"
  by (induction cols arbitrary: s) simp_all

lemma sequence_tables:
  "foldl (\<lambda>script copySection.
            let tableName = table copySection;
                columnList = columnListOf (columns copySection);
                idColumns = filter isIdColumn columnList
            in foldl (\<lambda>script idCol. script @ sequenceBlock tableName idCol) script idColumns)
     s cps = s @ concat (map sequenceLines cps)"
  by (induction cps arbitrary: s) (simp_all add: sequence_columns sequenceLines_def Let_def)

lemma addSequenceAdjustment_eq:
  "addSequenceAdjustment s cps =
   s @ [js ''-- Ajustar sequences das chaves prim'' @ [0xE1] @ js ''rias''] @
   concat (map sequenceLines cps)"
  unfolding addSequenceAdjustment_def sequence_tables by simp

lemma scriptBeforeWarnings_eq:
  "scriptBeforeWarnings enc cps errs now =
   (headLines @ [js ''-- Data: '' @ now] @ bodyLines enc cps,
    errs @ concat (map (\<lambda>c. snd (tableStep enc ([], []) c)) cps))"
proof -
  let ?s0 = "[js ''-- Script de Inser'' @ [0xE7, 0xE3] @ js ''o de Dados via INSERT INTO'',
              js ''-- Gerado automaticamente a partir do dump'',
              js ''-- Data: '' @ now,
              js ''-- Vers'' @ [0xE3] @ js ''o: Advanced'',
              []]"
  let ?s1 = "addTriggerManagement ?s0 False @ [js ''-- Inserir dados'']"
  have t: "foldl (tableStep enc) (?s1, errs) cps =
        (?s1 @ concat (map (\<lambda>c. fst (tableStep enc ([], []) c)) cps),
         errs @ concat (map (\<lambda>c. snd (tableStep enc ([], []) c)) cps))"
    using tables_frame[of enc ?s1 errs cps] by (simp add: tables_concat)
  have "scriptBeforeWarnings enc cps errs now =
        (addSequenceAdjustment (addTriggerManagement
           (?s1 @ concat (map (\<lambda>c. fst (tableStep enc ([], []) c)) cps)) True) cps,
         errs @ concat (map (\<lambda>c. snd (tableStep enc ([], []) c)) cps))"
    unfolding scriptBeforeWarnings_def Let_def t by simp
  also have "addSequenceAdjustment (addTriggerManagement
           (?s1 @ concat (map (\<lambda>c. fst (tableStep enc ([], []) c)) cps)) True) cps =
        headLines @ [js ''-- Data: '' @ now] @ bodyLines enc cps"
    by (simp add: addSequenceAdjustment_eq addTriggerManagement_frame_ne headLines_def
        bodyLines_def del: js_Cons tableStep.simps)
  finally show ?thesis .
qed

lemma joinWith_Cons: "ys \<noteq> [] \<Longrightarrow> joinWith sep (x # ys) = x @ sep @ joinWith sep ys"
  by (cases ys) simp_all

lemma bodyLines_ne: "bodyLines enc cps \<noteq> []"
  by (simp add: bodyLines_def)

lemma warningLines_ne: "warningLines errs \<noteq> []"
  by (simp add: warningLines_def)

lemma script_text:
  "fst (generateInsertScriptWith enc cps errs now) =
   joinWith [NL] headLines @ [NL] @ js ''-- Data: '' @ now @ [NL] @
   joinWith [NL] (bodyLines enc cps @
      (if errs @ concat (map (\<lambda>c. snd (tableStep enc ([], []) c)) cps) \<noteq> []
       then warningLines (errs @ concat (map (\<lambda>c. snd (tableStep enc ([], []) c)) cps)) else []))"
  unfolding generateInsertScriptWith_def scriptBeforeWarnings_eq
  by (simp add: headLines_def joinWith_Cons bodyLines_ne warningLines_ne del: js_Cons)


lemma main_text:
  "main content now = scriptPrefix @ now @ [NL] @ joinWith [NL] (bodyLines encodeRow (processDump content) @
      (if concat (map (\<lambda>c. snd (tableStep encodeRow ([], []) c)) (processDump content)) \<noteq> []
       then warningLines (concat (map (\<lambda>c. snd (tableStep encodeRow ([], []) c)) (processDump content))) else []))"
  unfolding main_def generateInsertScript_def script_text
  by (simp add: scriptPrefix_def headLines_def del: js_Cons)

lemma dataRows_split:
  "dataRows enc t cl ([], [], n) (pre @ post) =
   (case dataRows enc t cl ([], [], n) pre of (s1, e1, n1) \<Rightarrow>
      case dataRows enc t cl ([], [], n1) post of (s2, e2, n2) \<Rightarrow> (s1 @ s2, e1 @ e2, n2))"
proof -
  obtain s1 e1 n1 where 1: "dataRows enc t cl ([], [], n) pre = (s1, e1, n1)"
    by (cases "dataRows enc t cl ([], [], n) pre") auto
  show ?thesis
    using 1 dataRows_frame[of enc t cl s1 e1 n1 post] by (simp add: dataRows_append)
qed

lemma tableStep_eq:
  "tableStep enc ([], []) c =
   (case dataRows enc (table c) (columnListOf (columns c)) ([], [], 0) (splitOn NL (data c)) of
      (S, E, N) \<Rightarrow>
        ([js ''-- Dados para '' @ table c] @ S @
         (if N > 0 then [js ''-- '' @ numberToString N @ js '' registros inseridos em '' @ table c]
          else []) @ [[]], E))"
proof -
  obtain S E N where 1:
    "dataRows enc (table c) (columnListOf (columns c)) ([], [], 0) (splitOn NL (data c)) = (S, E, N)"
    by (cases "dataRows enc (table c) (columnListOf (columns c)) ([], [], 0) (splitOn NL (data c))") auto
  show ?thesis
    using 1 dataRows_frame[of enc "table c" "columnListOf (columns c)"
        "[js ''-- Dados para '' @ table c]" "[]" 0 "splitOn NL (data c)"]
    by (simp add: tableStep.simps Let_def del: js_Cons)
qed

lemma encodeRow_returns: "encodeRow line = Returned (map formatValueAdvanced (parseCopyLine line))"
  by (simp add: encodeRow_def)

lemma dataRows_encodeRow_errors:
  "fst (snd (dataRows encodeRow t cl (s, e, n) rows)) = e"
proof (induction rows arbitrary: s e n)
  case Nil
  show ?case by (simp add: dataRows_def)
next
  case (Cons r rows)
  obtain s' n' where 1: "rowStep encodeRow t cl (s, e, n) r = (s', e, n')"
    by (cases "trim r = []") (simp_all add: encodeRow_def)
  have "dataRows encodeRow t cl (s, e, n) (r # rows) = dataRows encodeRow t cl (s', e, n') rows"
    unfolding dataRows_def using 1 by simp
  then show ?case using Cons[of s' e n'] by simp
qed

lemma tableStep_encodeRow_errors: "snd (tableStep encodeRow ([], []) c) = []"
proof -
  obtain S E N where 1:
    "dataRows encodeRow (table c) (columnListOf (columns c)) ([], [], 0) (splitOn NL (data c)) = (S, E, N)"
    by (cases "dataRows encodeRow (table c) (columnListOf (columns c)) ([], [], 0) (splitOn NL (data c))") auto
  with dataRows_encodeRow_errors[of "table c" "columnListOf (columns c)" "[]" "[]" 0 "splitOn NL (data c)"]
  have "E = []" by simp
  with 1 show ?thesis unfolding tableStep_eq by simp
qed

lemma generateInsertScript_errors: "snd (generateInsertScript cps errs now) = errs"
  unfolding generateInsertScript_def generateInsertScriptWith_def scriptBeforeWarnings_eq
  by (simp add: tableStep_encodeRow_errors)

lemma dataRows_member:
  assumes "line \<in> set rows" "trim line \<noteq> []" "enc line = Returned vs"
  shows "insertStatement t cl vs \<in> set (fst (dataRows enc t cl ([], [], n) rows))"
proof -
  from assms(1) obtain pre post where r: "rows = pre @ line # post"
    by (meson split_list)
  obtain s1 e1 n1 where 1: "dataRows enc t cl ([], [], n) pre = (s1, e1, n1)"
    by (cases "dataRows enc t cl ([], [], n) pre") auto
  obtain s2 e2 n2 where 2: "dataRows enc t cl ([], [], Suc n1) post = (s2, e2, n2)"
    by (cases "dataRows enc t cl ([], [], Suc n1) post") auto
  have "dataRows enc t cl ([], [], n1) (line # post) =
        dataRows enc t cl ([insertStatement t cl vs], [], Suc n1) post"
    using assms(2,3) by (simp add: dataRows_def)
  also have "\<dots> = ([insertStatement t cl vs] @ s2, e2, n2)"
    using 2 dataRows_frame[of enc t cl "[insertStatement t cl vs]" "[]" "Suc n1" post] by simp
  finally show ?thesis
    unfolding r using 1 by (simp add: dataRows_split)
qed

lemma script_member:
  assumes "c \<in> set cps" "line \<in> set (splitOn NL (data c))" "trim line \<noteq> []" "enc line = Returned vs"
  shows "insertStatement (table c) (columnListOf (columns c)) vs
           \<in> set (fst (scriptBeforeWarnings enc cps errs now))"
proof -
  obtain S E N where 1:
    "dataRows enc (table c) (columnListOf (columns c)) ([], [], 0) (splitOn NL (data c)) = (S, E, N)"
    by (cases "dataRows enc (table c) (columnListOf (columns c)) ([], [], 0) (splitOn NL (data c))") auto
  with assms(2-4) dataRows_member[of line "splitOn NL (data c)" enc vs "table c" "columnListOf (columns c)" 0]
  have "insertStatement (table c) (columnListOf (columns c)) vs \<in> set S" by simp
  with 1 have "insertStatement (table c) (columnListOf (columns c)) vs
      \<in> set (fst (tableStep enc ([], []) c))"
    unfolding tableStep_eq by simp
  with assms(1) show ?thesis
    unfolding scriptBeforeWarnings_eq bodyLines_def by auto
qed


section \<open>The filter of the sequence section\<close>

lemma isPrefixOf_iff: "isPrefixOf p s = (\<exists>post. s = p @ post)"
  by (induction p s rule: isPrefixOf.induct) auto

lemma includesStr_iff: "includesStr s sub = (\<exists>pre post. s = pre @ sub @ post)"
proof (induction s)
  case Nil
  show ?case by auto
next
  case (Cons c cs)
  show ?case
  proof
    assume "includesStr (c # cs) sub"
    then consider "isPrefixOf sub (c # cs)" | "includesStr cs sub" by auto
    then show "\<exists>pre post. c # cs = pre @ sub @ post"
    proof cases
      case 1
      then obtain post where "c # cs = sub @ post" by (auto simp: isPrefixOf_iff)
      then have "c # cs = [] @ sub @ post" by simp
      then show ?thesis by blast
    next
      case 2
      with Cons obtain pre post where "cs = pre @ sub @ post" by auto
      then have "c # cs = (c # pre) @ sub @ post" by simp
      then show ?thesis by blast
    qed
  next
    assume "\<exists>pre post. c # cs = pre @ sub @ post"
    then obtain pre post where e: "c # cs = pre @ sub @ post" by blast
    show "includesStr (c # cs) sub"
    proof (cases pre)
      case Nil
      with e have "isPrefixOf sub (c # cs)" by (auto simp: isPrefixOf_iff)
      then show ?thesis by simp
    next
      case (Cons x pre')
      with e have "cs = pre' @ sub @ post" by simp
      with Cons.IH have "includesStr cs sub" by blast
      then show ?thesis by simp
    qed
  qed
qed

lemma includes_id_Cons:
  "includesStr (x # ys) (js ''id'') =
   ((x = 0x69 \<and> startsWith ys 0x64) \<or> includesStr ys (js ''id''))"
  by (cases ys) (auto simp: startsWith_def)

lemma lower_i: "((c::16 word) + 0x20 = 0x69) = (c = 0x49)"
  by auto

lemma lower_d: "((c::16 word) + 0x20 = 0x64) = (c = 0x44)"
  by auto

lemma lowerUnit_cases:
  "(lowerUnit c = [0x69, 0x307] \<and> c = 0x130) \<or>
   (\<exists>x. lowerUnit c = [x] \<and> (x = 0x69) = (c = 0x69 \<or> c = 0x49) \<and>
        (x = 0x64) = (c = 0x64 \<or> c = 0x44))"
proof (cases "0x41 \<le> c \<and> c \<le> 0x5A")
  case True
  then have "lowerUnit c = [c + 0x20]" by (simp add: lowerUnit_def)
  moreover from True have "c \<noteq> 0x69" "c \<noteq> 0x64" by auto
  ultimately show ?thesis by (simp add: lower_i lower_d)
next
  case False
  then have n: "c \<noteq> 0x49" "c \<noteq> 0x44" by auto
  show ?thesis
  proof (cases "c = 0x130")
    case True
    then show ?thesis by (simp add: lowerUnit_def)
  next
    case c1: False
    show ?thesis
    proof (cases "c = 0x212A")
      case True
      then show ?thesis by (simp add: lowerUnit_def)
    next
      case c2: False
      with False c1 have "lowerUnit c = [c]" by (simp add: lowerUnit_def)
      with n show ?thesis by simp
    qed
  qed
qed

lemma toLowerCase_Cons: "toLowerCase (c # cs) = lowerUnit c @ toLowerCase cs"
  by (simp add: toLowerCase_def)

lemma lower_startsWith_d:
  "startsWith (toLowerCase cs) 0x64 = (\<exists>b r. cs = b # r \<and> (b = 0x64 \<or> b = 0x44))"
proof (cases cs)
  case Nil
  then show ?thesis by (simp add: toLowerCase_def startsWith_def)
next
  case (Cons b r)
  with lowerUnit_cases[of b] show ?thesis
    by (auto simp: toLowerCase_Cons startsWith_def)
qed

lemma lower_includes_step:
  "includesStr (toLowerCase (a # cs)) (js ''id'') =
   (((a = 0x69 \<or> a = 0x49) \<and> startsWith (toLowerCase cs) 0x64) \<or>
    includesStr (toLowerCase cs) (js ''id''))"
proof -
  from lowerUnit_cases[of a] consider
    (dotted) "lowerUnit a = [0x69, 0x307]" "a = 0x130"
    | (single) x where "lowerUnit a = [x]" "(x = 0x69) = (a = 0x69 \<or> a = 0x49)"
    by blast
  then show ?thesis
  proof cases
    case dotted
    have "includesStr (0x69 # 0x307 # toLowerCase cs) (js ''id'') =
          includesStr (toLowerCase cs) (js ''id'')"
      unfolding includes_id_Cons by (simp add: startsWith_def)
    with dotted show ?thesis by (simp add: toLowerCase_Cons del: includesStr.simps js_Cons)
  next
    case single
    then show ?thesis
      by (simp add: toLowerCase_Cons includes_id_Cons del: includesStr.simps js_Cons)
  qed
qed

lemma spec_containsId_Nil: "\<not> spec_containsId []"
  by (simp add: spec_containsId_def)

lemma spec_containsId_Cons:
  "spec_containsId (a # cs) =
   (((a = 0x69 \<or> a = 0x49) \<and> (\<exists>b r. cs = b # r \<and> (b = 0x64 \<or> b = 0x44))) \<or>
    spec_containsId cs)"
proof
  assume "spec_containsId (a # cs)"
  then obtain pre i d post where e: "a # cs = pre @ [i, d] @ post"
    and i: "i = 0x69 \<or> i = 0x49" and d: "d = 0x64 \<or> d = 0x44"
    by (auto simp: spec_containsId_def)
  show "((a = 0x69 \<or> a = 0x49) \<and> (\<exists>b r. cs = b # r \<and> (b = 0x64 \<or> b = 0x44))) \<or>
    spec_containsId cs"
  proof (cases pre)
    case Nil
    with e i d show ?thesis by auto
  next
    case (Cons x pre')
    with e have "cs = pre' @ [i, d] @ post" by simp
    with i d have "spec_containsId cs" unfolding spec_containsId_def by auto
    then show ?thesis by simp
  qed
next
  assume "((a = 0x69 \<or> a = 0x49) \<and> (\<exists>b r. cs = b # r \<and> (b = 0x64 \<or> b = 0x44))) \<or>
    spec_containsId cs"
  then consider (here) b r where "a = 0x69 \<or> a = 0x49" "cs = b # r" "b = 0x64 \<or> b = 0x44"
    | (later) "spec_containsId cs" by blast
  then show "spec_containsId (a # cs)"
  proof cases
    case here
    then show ?thesis
      unfolding spec_containsId_def
      by (intro exI[of _ "[]"] exI[of _ a] exI[of _ b] exI[of _ r]) simp
  next
    case later
    then obtain pre i d post where e: "cs = pre @ [i, d] @ post"
      and i: "i = 0x69 \<or> i = 0x49" and d: "d = 0x64 \<or> d = 0x44"
      by (auto simp: spec_containsId_def)
    with i d show ?thesis
      unfolding spec_containsId_def
      by (intro exI[of _ "a # pre"] exI[of _ i] exI[of _ d] exI[of _ post]) simp
  qed
qed

lemma lower_includes_id: "includesStr (toLowerCase col) (js ''id'') = spec_containsId col"
proof (induction col)
  case Nil
  show ?case by (simp add: toLowerCase_def spec_containsId_Nil)
next
  case (Cons a cs)
  show ?case
    unfolding lower_includes_step spec_containsId_Cons lower_startsWith_d Cons.IH by simp
qed

lemma includes_longer: "includesStr s (x # sub) \<Longrightarrow> includesStr s sub"
proof -
  assume "includesStr s (x # sub)"
  then obtain pre post where "s = pre @ (x # sub) @ post" by (auto simp: includesStr_iff)
  then have "s = (pre @ [x]) @ sub @ post" by simp
  then show ?thesis unfolding includesStr_iff by blast
qed

lemma isIdColumn_spec: "isIdColumn col = spec_containsId col"
proof -
  have "includesStr (toLowerCase col) (js ''_id'') \<Longrightarrow> includesStr (toLowerCase col) (js ''id'')"
    using includes_longer[of "toLowerCase col" "0x5F" "js ''id''"] by simp
  then show ?thesis
    unfolding isIdColumn_def using lower_includes_id[of col] by blast
qed


section \<open>The script of the program's own encoder\<close>



lemma dataRows_encodeRow_eq:
  "dataRows encodeRow t cl (s, e, n) rows =
   (s @ map (\<lambda>line. insertStatement t cl (map formatValueAdvanced (parseCopyLine line)))
          (filter (\<lambda>line. trim line \<noteq> []) rows),
    e, n + length (filter (\<lambda>line. trim line \<noteq> []) rows))"
proof (induction rows arbitrary: s n)
  case Nil
  show ?case by (simp add: dataRows_def)
next
  case (Cons r rows)
  have rs: "rowStep encodeRow t cl (s, e, n) r =
      (if trim r = [] then (s, e, n)
       else (s @ [insertStatement t cl (map formatValueAdvanced (parseCopyLine r))], e, n + 1))"
    by (simp add: encodeRow_returns)
  have "dataRows encodeRow t cl (s, e, n) (r # rows) =
        dataRows encodeRow t cl (rowStep encodeRow t cl (s, e, n) r) rows"
    by (simp add: dataRows_def)
  then show ?case
    unfolding rs by (cases "trim r = []") (simp_all add: Cons)
qed

lemma tableStep_encodeRow_eq:
  "tableStep encodeRow (s, e) c = (s @ spec_tableSection c, e)"
  by (simp add: tableStep.simps dataRows_encodeRow_eq spec_tableSection_def Let_def del: js_Cons)

lemma tables_encodeRow:
  "foldl (tableStep encodeRow) (s, e) cps = (s @ concat (map spec_tableSection cps), e)"
  by (induction cps arbitrary: s) (simp_all add: tableStep_encodeRow_eq)

lemma bodyLines_encodeRow:
  "concat (map (\<lambda>c. fst (tableStep encodeRow ([], []) c)) cps) = concat (map spec_tableSection cps)"
  by (simp add: tableStep_encodeRow_eq)

lemma joinWith_append:
  "xs \<noteq> [] \<Longrightarrow> ys \<noteq> [] \<Longrightarrow> joinWith sep (xs @ ys) = joinWith sep xs @ sep @ joinWith sep ys"
proof (induction xs)
  case Nil
  then show ?case by simp
next
  case (Cons x xs)
  show ?case
  proof (cases xs)
    case Nil
    with Cons(3) show ?thesis by (simp add: joinWith_Cons)
  next
    case (Cons x' xs')
    with Cons.IH Cons.prems show ?thesis by (simp add: joinWith_Cons)
  qed
qed

lemma joinWith_middle:
  "xs \<noteq> [] \<Longrightarrow> ys \<noteq> [] \<Longrightarrow>
   joinWith sep (xs @ [x] @ ys) = joinWith sep xs @ sep @ x @ sep @ joinWith sep ys"
  using joinWith_append[of xs "x # ys" sep] by (simp add: joinWith_Cons)

lemma concat_map_Nil: "concat (map (\<lambda>c. []) cps) = []"
  by (induction cps) simp_all

lemma script_exact:
  "generateInsertScript cps errs now =
   (joinWith [NL]
      ([js ''-- Script de Inser'' @ [0xE7, 0xE3] @ js ''o de Dados via INSERT INTO'',
        js ''-- Gerado automaticamente a partir do dump'',
        js ''-- Data: '' @ now,
        js ''-- Vers'' @ [0xE3] @ js ''o: Advanced'',
        []] @
       addTriggerManagement [] False @ [js ''-- Inserir dados''] @
       concat (map spec_tableSection cps) @
       addTriggerManagement [] True @ addSequenceAdjustment [] cps @
       (if errs \<noteq> [] then warningLines errs else [])),
    errs)"
  unfolding generateInsertScript_def generateInsertScriptWith_def scriptBeforeWarnings_eq
    bodyLines_def bodyLines_encodeRow addSequenceAdjustment_eq
  by (simp add: tableStep_encodeRow_eq headLines_def concat_map_Nil del: js_Cons)

lemma tableSection_member:
  assumes "line \<in> set (splitOn NL (data c))" "trim line \<noteq> []"
  shows "\<exists>p q. spec_tableSection c =
           p @ [insertStatement (table c) (columnListOf (columns c))
                  (map formatValueAdvanced (parseCopyLine line))] @ q \<and> p \<noteq> [] \<and> q \<noteq> []"
proof -
  let ?f = "\<lambda>line. insertStatement (table c) (columnListOf (columns c))
                       (map formatValueAdvanced (parseCopyLine line))"
  let ?rows = "filter (\<lambda>line. trim line \<noteq> []) (splitOn NL (data c))"
  let ?cnt = "if ?rows \<noteq> []
          then [js ''-- '' @ numberToString (length ?rows) @ js '' registros inseridos em '' @ table c]
          else []"
  from assms have "line \<in> set ?rows" by simp
  then obtain a b where r: "?rows = a @ line # b" by (meson split_list)
  have "spec_tableSection c = [js ''-- Dados para '' @ table c] @ map ?f ?rows @ ?cnt @ [[]]"
    by (simp add: spec_tableSection_def Let_def del: js_Cons)
  also have "map ?f ?rows = map ?f a @ [?f line] @ map ?f b"
    unfolding r by simp
  finally have "spec_tableSection c =
      ([js ''-- Dados para '' @ table c] @ map ?f a) @ [?f line] @ (map ?f b @ ?cnt @ [[]])"
    by simp
  moreover have "[js ''-- Dados para '' @ table c] @ map ?f a \<noteq> []" by simp
  moreover have "map ?f b @ ?cnt @ [[]] \<noteq> []" by simp
  ultimately show ?thesis by blast
qed

lemma concat_member:
  "c \<in> set cps \<Longrightarrow> \<exists>X Y. concat (map g cps) = X @ g c @ Y"
proof -
  assume "c \<in> set cps"
  then obtain a b where "cps = a @ c # b" by (meson split_list)
  then have "concat (map g cps) = concat (map g a) @ g c @ concat (map g b)" by simp
  then show ?thesis by blast
qed

lemma script_contains_statement:
  assumes "c \<in> set cps" "line \<in> set (splitOn NL (data c))" "trim line \<noteq> []"
  shows "\<exists>before after. fst (generateInsertScript cps errs now) =
           before @ [NL] @ insertStatement (table c) (columnListOf (columns c))
                             (map formatValueAdvanced (parseCopyLine line)) @ [NL] @ after"
proof -
  let ?stmt = "insertStatement (table c) (columnListOf (columns c))
                 (map formatValueAdvanced (parseCopyLine line))"
  from tableSection_member[OF assms(2,3)] obtain p q where
    t: "spec_tableSection c = p @ [?stmt] @ q" and p: "p \<noteq> []" and q: "q \<noteq> []" by blast
  from concat_member[OF assms(1), of spec_tableSection] obtain X Y where
    c: "concat (map spec_tableSection cps) = X @ spec_tableSection c @ Y" by blast
  let ?P = "[js ''-- Script de Inser'' @ [0xE7, 0xE3] @ js ''o de Dados via INSERT INTO'',
        js ''-- Gerado automaticamente a partir do dump'',
        js ''-- Data: '' @ now,
        js ''-- Vers'' @ [0xE3] @ js ''o: Advanced'',
        []] @ addTriggerManagement [] False @ [js ''-- Inserir dados'']"
  let ?Q = "addTriggerManagement [] True @ addSequenceAdjustment [] cps @
       (if errs \<noteq> [] then warningLines errs else [])"
  have "fst (generateInsertScript cps errs now) =
        joinWith [NL] ((?P @ X @ p) @ [?stmt] @ (q @ Y @ ?Q))"
    unfolding script_exact c t by (simp del: js_Cons)
  also have "\<dots> = joinWith [NL] (?P @ X @ p) @ [NL] @ ?stmt @ [NL] @ joinWith [NL] (q @ Y @ ?Q)"
    using p q by (intro joinWith_middle) simp_all
  finally show ?thesis by blast
qed

section \<open>Facts for the examples\<close>

lemma isIdColumn_fun: "isIdColumn = spec_containsId"
  by (rule ext) (rule isIdColumn_spec)


lemma exampleColumns: "columnListOf (js ''id, name'') = [js ''id'', js ''name'']"
  by (simp add: columnListOf_def trim_def isWhiteSpace_def)

lemmas example_eval = exampleHeader_def matchCopyHeader_def stripCR_def endsWith_def startsWith_def
  processLines_def processLine_def initialState_def

section \<open>Claims about the block extractor\<close>

text \<open>
  Claim C7. When a \<open>COPY\<close> header opens a block and no later line of the dump is the
  terminator (backslash-dot, after the carriage return is stripped), the block is dropped
  without a trace: the extracted blocks are those of the lines before the header, the
  script written is the script of those blocks, so the open block gives no row and no
  \<open>INSERT\<close>, and no error is recorded.
\<close>

theorem unterminated_block_discarded:
  assumes "splitOn NL content = pre @ h # rest"
    and "matchCopyHeader (stripCR h) \<noteq> None"
    and "\<forall>l\<in>set rest. stripCR l \<noteq> [BSL, of_char CHR ''.'']"
  shows "processDump content = copies (processLines initialState pre) \<and>
         main content now = fst (generateInsertScript (copies (processLines initialState pre)) [] now) \<and>
         snd (generateInsertScript (processDump content) [] now) = []"
proof -
  have "processDump content = copies (processLines (processLines initialState pre) (h # rest))"
    unfolding processDump_def assms(1) processLines_append ..
  also have "\<dots> = copies (processLines initialState pre)"
    using assms(2,3) by (rule open_block_discarded)
  finally have 1: "processDump content = copies (processLines initialState pre)" .
  then show ?thesis
    by (simp add: main_def generateInsertScript_errors)
qed

text \<open>Claim C7 on a dump with a closed block \<open>b\<close> followed by a block \<open>c\<close> that is
  never closed: only \<open>b\<close> is extracted.\<close>

theorem unterminated_block_discarded_witness:
  "processDump (exampleHeader (js ''b'') @ [NL] @ js ''1'' @ [TAB] @ js ''x'' @ [NL] @ [BSL] @ js ''.'' @ [NL] @
                exampleHeader (js ''c'') @ [NL] @ js ''2'' @ [TAB] @ js ''y'') =
   [\<lparr>table = js ''s.'' @ [DQ] @ js ''b'' @ [DQ], columns = js ''id, name'',
     data = js ''1'' @ [TAB] @ js ''x''\<rparr>]"
proof -
  let ?content = "exampleHeader (js ''b'') @ [NL] @ js ''1'' @ [TAB] @ js ''x'' @ [NL] @ [BSL] @ js ''.'' @ [NL] @
                exampleHeader (js ''c'') @ [NL] @ js ''2'' @ [TAB] @ js ''y''"
  have s: "splitOn NL ?content =
      [exampleHeader (js ''b''), js ''1'' @ [TAB] @ js ''x'', [BSL] @ js ''.''] @
      exampleHeader (js ''c'') # [js ''2'' @ [TAB] @ js ''y'']"
    by (simp add: exampleHeader_def)
  have h: "matchCopyHeader (stripCR (exampleHeader (js ''c''))) \<noteq> None"
    by (simp add: example_eval)
  have r: "\<forall>l\<in>set [js ''2'' @ [TAB] @ js ''y'']. stripCR l \<noteq> [BSL, of_char CHR ''.'']"
    by (simp add: stripCR_def endsWith_def)
  from unterminated_block_discarded[OF s h r] show ?thesis
    by (simp add: example_eval)
qed

text \<open>
  Claim C10. When a second \<open>COPY\<close> header comes while a block is open (no terminator
  between the two headers), the open block is dropped: right after the second header the
  list of extracted blocks is what it was before the first header, and the open block is a
  new one for the second header with no row in it, so neither the table, the columns and
  the rows of the first block nor the header line are kept. The rest of the dump is then
  read as if the first header and its rows had not been there.
\<close>

theorem second_header_discards_open_block:
  assumes "matchCopyHeader (stripCR h1) \<noteq> None"
    and "\<forall>l\<in>set mid. stripCR l \<noteq> [BSL, of_char CHR ''.'']"
    and "matchCopyHeader (stripCR h2) = Some (t2, c2)"
    and "splitOn NL content = pre @ h1 # mid @ h2 # rest"
  shows "processLines st (h1 # mid @ [h2]) =
           st\<lparr>currentCopy := Some \<lparr>table = t2, columns = c2, data = []\<rparr>, inCopyData := True\<rparr> \<and>
         processLines st (h1 # mid @ h2 # rest) = processLines st (h2 # rest) \<and>
         processDump content = copies (processLines initialState (pre @ h2 # rest))"
proof -
  have a: "processLines st (h1 # mid @ [h2]) =
           st\<lparr>currentCopy := Some \<lparr>table = t2, columns = c2, data = []\<rparr>, inCopyData := True\<rparr>" for st
    using assms(1-3) by (rule second_header_state)
  have b: "processLines st (h1 # mid @ h2 # rest) = processLines st (h2 # rest)" for st
  proof -
    have "processLines st (h1 # mid @ h2 # rest) = processLines (processLines st (h1 # mid @ [h2])) rest"
      using processLines_append[of st "h1 # mid @ [h2]" rest] by simp
    also have "\<dots> = processLines (processLine st h2) rest"
      unfolding a processLine_header[OF assms(3)] ..
    finally show ?thesis by (simp add: processLines_Cons)
  qed
  have "processDump content = copies (processLines (processLines initialState pre) (h1 # mid @ h2 # rest))"
    unfolding processDump_def assms(4) processLines_append ..
  also have "\<dots> = copies (processLines initialState (pre @ h2 # rest))"
    unfolding b processLines_append ..
  finally show ?thesis using a b by simp
qed

text \<open>Claim C10 on a dump where the header of \<open>c\<close> comes before the block \<open>b\<close> is
  closed: only \<open>c\<close> is extracted, with its own row.\<close>

theorem second_header_discards_open_block_witness:
  "processDump (exampleHeader (js ''b'') @ [NL] @ js ''1'' @ [TAB] @ js ''x'' @ [NL] @
                exampleHeader (js ''c'') @ [NL] @ js ''2'' @ [TAB] @ js ''y'' @ [NL] @ [BSL] @ js ''.'') =
   [\<lparr>table = js ''s.'' @ [DQ] @ js ''c'' @ [DQ], columns = js ''id, name'',
     data = js ''2'' @ [TAB] @ js ''y''\<rparr>]"
proof -
  let ?content = "exampleHeader (js ''b'') @ [NL] @ js ''1'' @ [TAB] @ js ''x'' @ [NL] @
                exampleHeader (js ''c'') @ [NL] @ js ''2'' @ [TAB] @ js ''y'' @ [NL] @ [BSL] @ js ''.''"
  have s: "splitOn NL ?content =
      [] @ exampleHeader (js ''b'') # [js ''1'' @ [TAB] @ js ''x''] @
      exampleHeader (js ''c'') # [js ''2'' @ [TAB] @ js ''y'', [BSL] @ js ''.'']"
    by (simp add: exampleHeader_def)
  have h: "matchCopyHeader (stripCR (exampleHeader (js ''b''))) \<noteq> None"
    by (simp add: example_eval)
  have m: "\<forall>l\<in>set [js ''1'' @ [TAB] @ js ''x'']. stripCR l \<noteq> [BSL, of_char CHR ''.'']"
    by (simp add: stripCR_def endsWith_def)
  have h2: "matchCopyHeader (stripCR (exampleHeader (js ''c''))) =
      Some (js ''s.'' @ [DQ] @ js ''c'' @ [DQ], js ''id, name'')"
    by (simp add: example_eval)
  from second_header_discards_open_block[OF h m h2 s, of initialState]
  show ?thesis by (simp add: example_eval)
qed

section \<open>Claims about the generated script\<close>

text \<open>
  Claim C9. The script is a function of the dump text and of the timestamp, and the
  timestamp only fills its own line: for every dump and every timestamp, the output is
  the fixed text up to \<open>-- Data: \<close>, then the timestamp, then a rest that is the same for
  every timestamp (what follows, in the output for the empty timestamp). Two runs on the
  same dump therefore differ in the timestamp line only.
\<close>

theorem main_timestamp_only:
  "main content now = scriptPrefix @ now @ drop (length scriptPrefix) (main content [])"
  unfolding main_text by simp

text \<open>Claim C9 on two runs over the same dump with the timestamps \<open>2025\<close> and \<open>2026\<close>:
  after the timestamp the outputs are the same.\<close>

theorem main_timestamp_only_witness:
  "drop (length scriptPrefix + 4) (main (js ''no copy block'') (js ''2025'')) =
   drop (length scriptPrefix + 4) (main (js ''no copy block'') (js ''2026''))"
  using main_timestamp_only[of "js ''no copy block''" "js ''2025''"]
    main_timestamp_only[of "js ''no copy block''" "js ''2026''"]
  by simp

text \<open>
  Claim C8. Nothing compares the number of fields of a row with the number of declared
  columns: for every non-blank row of a block whose number of fields differs from the
  number of column names, the loop pushes the \<open>INSERT\<close> statement that pairs the whole
  column list with the values of the row; that statement is a line of the script that
  \<open>generateInsertScript\<close> returns and that \<open>main\<close> writes (it stands between two line
  feeds in the text); and the list of errors is what it was.
\<close>

theorem arity_mismatch_still_emitted:
  assumes "c \<in> set cps" "line \<in> set (splitOn NL (data c))" "trim line \<noteq> []"
    and "length (parseCopyLine line) \<noteq> length (columnListOf (columns c))"
  shows "rowStep encodeRow (table c) (columnListOf (columns c)) (script, errors, lineCount) line =
           (script @ [insertStatement (table c) (columnListOf (columns c))
                        (map formatValueAdvanced (parseCopyLine line))], errors, lineCount + 1) \<and>
         insertStatement (table c) (columnListOf (columns c))
             (map formatValueAdvanced (parseCopyLine line))
           \<in> set (fst (scriptBeforeWarnings encodeRow cps errs now)) \<and>
         (\<exists>before after. fst (generateInsertScript cps errs now) =
            before @ [NL] @
            insertStatement (table c) (columnListOf (columns c))
              (map formatValueAdvanced (parseCopyLine line)) @
            [NL] @ after) \<and>
         (cps = processDump content \<longrightarrow>
          (\<exists>before after. main content now =
            before @ [NL] @
            insertStatement (table c) (columnListOf (columns c))
              (map formatValueAdvanced (parseCopyLine line)) @
            [NL] @ after)) \<and>
         snd (generateInsertScript cps errs now) = errs"
proof -
  have a: "rowStep encodeRow (table c) (columnListOf (columns c)) (script, errors, lineCount) line =
           (script @ [insertStatement (table c) (columnListOf (columns c))
                        (map formatValueAdvanced (parseCopyLine line))], errors, lineCount + 1)"
    using assms(3) by (simp add: encodeRow_returns)
  have b: "insertStatement (table c) (columnListOf (columns c))
             (map formatValueAdvanced (parseCopyLine line))
           \<in> set (fst (scriptBeforeWarnings encodeRow cps errs now))"
    using assms(1-3) encodeRow_returns[of line]
      script_member[of c cps line encodeRow "map formatValueAdvanced (parseCopyLine line)" errs now]
    by simp
  have d: "\<exists>before after. fst (generateInsertScript cps errs now) =
            before @ [NL] @
            insertStatement (table c) (columnListOf (columns c))
              (map formatValueAdvanced (parseCopyLine line)) @
            [NL] @ after" for errs
    using assms(1-3) by (rule script_contains_statement)
  have e: "cps = processDump content \<longrightarrow>
          (\<exists>before after. main content now =
            before @ [NL] @
            insertStatement (table c) (columnListOf (columns c))
              (map formatValueAdvanced (parseCopyLine line)) @
            [NL] @ after)"
    using d[of "[]"] by (auto simp: main_def)
  from a b d[of errs] e show ?thesis
    by (simp add: generateInsertScript_errors)
qed

text \<open>Claim C8 on the dump of a table with the columns \<open>id\<close> and \<open>name\<close> and the
  one-field row \<open>1\<close>: the script written has the statement with two columns and one
  value, and no error is recorded.\<close>

theorem arity_mismatch_still_emitted_witness:
  "processDump (exampleHeader (js ''t'') @ [NL] @ js ''1'' @ [NL] @ [BSL] @ js ''.'') =
     [exampleBlock (js ''1'')] \<and>
   length (parseCopyLine (js ''1'')) = 1 \<and> length (columnListOf (columns (exampleBlock (js ''1'')))) = 2 \<and>
   (\<exists>before after.
      main (exampleHeader (js ''t'') @ [NL] @ js ''1'' @ [NL] @ [BSL] @ js ''.'') (js ''2025'') =
      before @ [NL] @
      js ''INSERT INTO s.'' @ [DQ] @ js ''t'' @ [DQ] @ js '' (id, name) VALUES (1) ON CONFLICT DO NOTHING;'' @
      [NL] @ after) \<and>
   js ''INSERT INTO s.'' @ [DQ] @ js ''t'' @ [DQ] @ js '' (id, name) VALUES (1) ON CONFLICT DO NOTHING;''
     \<in> set (fst (scriptBeforeWarnings encodeRow [exampleBlock (js ''1'')] [] (js ''2025''))) \<and>
   snd (generateInsertScript [exampleBlock (js ''1'')] [] (js ''2025'')) = []"
proof -
  let ?content = "exampleHeader (js ''t'') @ [NL] @ js ''1'' @ [NL] @ [BSL] @ js ''.''"
  have d: "processDump ?content = [exampleBlock (js ''1'')]"
    by (simp add: processDump_def example_eval exampleBlock_def)
  have p: "parseCopyLine (js ''1'') = [js ''1'']"
    by (simp add: parseCopyLine_spec)
  have c: "columnListOf (columns (exampleBlock (js ''1''))) = [js ''id'', js ''name'']"
    by (simp add: exampleBlock_def exampleColumns del: js_Cons)
  have 1: "exampleBlock (js ''1'') \<in> set [exampleBlock (js ''1'')]" by simp
  have 2: "js ''1'' \<in> set (splitOn NL (data (exampleBlock (js ''1''))))"
    by (simp add: exampleBlock_def)
  have 3: "trim (js ''1'') \<noteq> []"
    by (simp add: trim_def isWhiteSpace_def)
  have 4: "length (parseCopyLine (js ''1'')) \<noteq> length (columnListOf (columns (exampleBlock (js ''1''))))"
    unfolding p c by simp
  have f: "formatValueAdvanced (js ''1'') = js ''1''"
    by (simp add: formatValueAdvanced_def matchesNumber_def startsWith_def isDigit_def)
  have i: "insertStatement (table (exampleBlock (js ''1''))) [js ''id'', js ''name''] [js ''1''] =
      js ''INSERT INTO s.'' @ [DQ] @ js ''t'' @ [DQ] @ js '' (id, name) VALUES (1) ON CONFLICT DO NOTHING;''"
    by (simp add: insertStatement_def exampleBlock_def)
  from arity_mismatch_still_emitted[OF 1 2 3 4, of "[]" "[]" 0 "[]" "js ''2025''" ?content]
  show ?thesis
    unfolding p c d by (simp add: f i del: js_Cons)
qed




text \<open>
  Claim C3, as stated, fails on the column \<open>valid\<close>: its name contains \<open>id\<close>, so the
  column gets a sequence block like any other, here on the table \<open>public."media"\<close>.
\<close>

theorem valid_column_gets_block:
  "addSequenceAdjustment [] [\<lparr>table = exampleTable, columns = js ''valid'', data = []\<rparr>] =
     [js ''-- Ajustar sequences das chaves prim'' @ [0xE1] @ js ''rias''] @
     sequenceBlock exampleTable (js ''valid'') \<and>
   hd (sequenceBlock exampleTable (js ''valid'')) =
     js ''-- Ajustar sequence para public.'' @ [DQ] @ js ''media'' @ [DQ] @ js ''.valid''"
proof -
  have c: "columnListOf (js ''valid'') = [js ''valid'']"
    by (simp add: columnListOf_def trim_def isWhiteSpace_def)
  have i: "isIdColumn (js ''valid'')"
    by (simp add: isIdColumn_def toLowerCase_def lowerUnit_def)
  show ?thesis
    unfolding addSequenceAdjustment_eq sequenceLines_def
    using c i by (simp add: sequenceBlock_def exampleTable_def)
qed

text \<open>
  Claim C3, amended. For every captured block, the sequence section has one block of
  lines (\<open>sequenceBlock\<close>, naming the table and the column) for each declared column
  whose name contains \<open>id\<close> case-insensitively, in the order of the columns, and nothing
  for the other columns. Of the columns \<open>videoId\<close>, \<open>valid\<close>, \<open>invalidation\<close> and
  \<open>name\<close>, the first three get a block each (\<open>valid\<close> contains \<open>id\<close> too) and \<open>name\<close>
  gets none.
\<close>

theorem sequence_blocks_per_id_column:
  "addSequenceAdjustment script cps =
     script @ [js ''-- Ajustar sequences das chaves prim'' @ [0xE1] @ js ''rias''] @
     concat (map (\<lambda>c. concat (map (sequenceBlock (table c))
                                 (filter spec_containsId (columnListOf (columns c))))) cps) \<and>
   filter spec_containsId [js ''videoId'', js ''valid'', js ''invalidation'', js ''name'']
     = [js ''videoId'', js ''valid'', js ''invalidation'']"
proof -
  have "filter isIdColumn [js ''videoId'', js ''valid'', js ''invalidation'', js ''name'']
     = [js ''videoId'', js ''valid'', js ''invalidation'']"
    by (simp add: isIdColumn_def toLowerCase_def lowerUnit_def isPrefixOf.simps)
  then show ?thesis
    unfolding addSequenceAdjustment_eq sequenceLines_def isIdColumn_fun by simp
qed

text \<open>Claim C3, amended, on the table \<open>public."media"\<close> with the four columns: three
  blocks, for \<open>videoId\<close>, \<open>valid\<close> and \<open>invalidation\<close>.\<close>

theorem sequence_blocks_per_id_column_witness:
  "addSequenceAdjustment []
     [\<lparr>table = exampleTable, columns = js ''videoId, valid, invalidation, name'', data = []\<rparr>] =
   [js ''-- Ajustar sequences das chaves prim'' @ [0xE1] @ js ''rias''] @
   sequenceBlock exampleTable (js ''videoId'') @ sequenceBlock exampleTable (js ''valid'') @
   sequenceBlock exampleTable (js ''invalidation'')"
proof -
  have c: "columnListOf (js ''videoId, valid, invalidation, name'') =
        [js ''videoId'', js ''valid'', js ''invalidation'', js ''name'']"
    by (simp add: columnListOf_def trim_def isWhiteSpace_def)
  note t = sequence_blocks_per_id_column[of "[]"
        "[\<lparr>table = exampleTable, columns = js ''videoId, valid, invalidation, name'', data = []\<rparr>]"]
  from t have f: "filter spec_containsId [js ''videoId'', js ''valid'', js ''invalidation'', js ''name'']
     = [js ''videoId'', js ''valid'', js ''invalidation'']" by (rule conjunct2)
  from t show ?thesis
    by (simp add: c f del: js_Cons filter.simps)
qed

end
